theory Spec2Isabelle
  imports Main "HOL-Library.Sublist"
begin

section \<open>Text\<close>

text \<open>
  A Python \<open>str\<close> is a sequence of Unicode code points. A code point is a natural number
  here, a text a list of them. \<open>U\<close> reads an ASCII literal; the one non-ASCII character of
  the program, the em dash of an entry line, is the code point 8212.
\<close>

type_synonym ustr = "nat list"

definition U :: "string \<Rightarrow> ustr" where
  "U s = map of_char s"

definition is_space :: "nat \<Rightarrow> bool" where
  \<comment> \<open>the characters \<open>str.isspace\<close>, \<open>str.rstrip()\<close> and the class \<open>\s\<close> of a str pattern accept\<close>
  "is_space c \<longleftrightarrow>
     (9 \<le> c \<and> c \<le> 13) \<or> (28 \<le> c \<and> c \<le> 32) \<or> c = 133 \<or> c = 160 \<or> c = 5760 \<or>
     (8192 \<le> c \<and> c \<le> 8202) \<or> c = 8232 \<or> c = 8233 \<or> c = 8239 \<or> c = 8287 \<or> c = 12288"

definition decimal_ranges :: "(nat \<times> nat) list" where
  \<comment> \<open>the decimal digits (category Nd) of Unicode 14, the class \<open>\d\<close> of a str pattern\<close>
  "decimal_ranges =
    [(48, 57), (1632, 1641), (1776, 1785), (1984, 1993), (2406, 2415), (2534, 2543),
     (2662, 2671), (2790, 2799), (2918, 2927), (3046, 3055), (3174, 3183), (3302, 3311),
     (3430, 3439), (3558, 3567), (3664, 3673), (3792, 3801), (3872, 3881), (4160, 4169),
     (4240, 4249), (6112, 6121), (6160, 6169), (6470, 6479), (6608, 6617), (6784, 6793),
     (6800, 6809), (6992, 7001), (7088, 7097), (7232, 7241), (7248, 7257), (42528, 42537),
     (43216, 43225), (43264, 43273), (43472, 43481), (43504, 43513), (43600, 43609),
     (44016, 44025), (65296, 65305), (66720, 66729), (68912, 68921), (69734, 69743),
     (69872, 69881), (69942, 69951), (70096, 70105), (70384, 70393), (70736, 70745),
     (70864, 70873), (71248, 71257), (71360, 71369), (71472, 71481), (71904, 71913),
     (72016, 72025), (72784, 72793), (73040, 73049), (73120, 73129), (92768, 92777),
     (92864, 92873), (93008, 93017), (120782, 120831), (123200, 123209), (123632, 123641),
     (125264, 125273), (130032, 130041)]"

definition is_decimal :: "nat \<Rightarrow> bool" where
  "is_decimal c = list_ex (\<lambda>(lo, hi). lo \<le> c \<and> c \<le> hi) decimal_ranges"

definition any_char :: "nat \<Rightarrow> bool" where
  \<comment> \<open>\<open>.\<close> under DOTALL\<close>
  "any_char c = True"

definition rstrip :: "ustr \<Rightarrow> ustr" where
  "rstrip s = rev (dropWhile is_space (rev s))"

fun contains :: "ustr \<Rightarrow> ustr \<Rightarrow> bool" where
  \<comment> \<open>\<open>w in s\<close>\<close>
  "contains w [] = (w = [])"
| "contains w (c # cs) = (prefix w (c # cs) \<or> contains w cs)"

fun replace_loop :: "ustr \<Rightarrow> ustr \<Rightarrow> nat \<Rightarrow> ustr \<Rightarrow> ustr" where
  \<comment> \<open>the scan of \<open>s.replace(old, new)\<close> for a non-empty \<open>old\<close>: the counter is the number of
      characters of the occurrence just replaced that are still to be passed over\<close>
  "replace_loop old new k [] = []"
| "replace_loop old new (Suc k) (c # cs) = replace_loop old new k cs"
| "replace_loop old new 0 (c # cs) =
     (if prefix old (c # cs) then new @ replace_loop old new (length old - 1) cs
      else c # replace_loop old new 0 cs)"

definition replace_str :: "ustr \<Rightarrow> ustr \<Rightarrow> ustr \<Rightarrow> ustr" where
  "replace_str s old new = replace_loop old new 0 s"

fun digits_of :: "nat \<Rightarrow> nat \<Rightarrow> ustr" where
  \<comment> \<open>the decimal digits of \<open>n\<close>, with fuel a bound on their number\<close>
  "digits_of 0 n = []"
| "digits_of (Suc f) n = (if n < 10 then [48 + n] else digits_of f (n div 10) @ [48 + n mod 10])"

definition str_of_nat :: "nat \<Rightarrow> ustr" where
  \<comment> \<open>\<open>str(n)\<close> of a non-negative int\<close>
  "str_of_nat n = digits_of (Suc n) n"

section \<open>Regular expressions\<close>

text \<open>
  A pattern is matched at a position of the text: the position knows whether it is at the
  start of a line (\<open>^\<close> under MULTILINE) and the text from there on. A matcher returns
  what it can consume there, every alternative, in the order in which the backtracking
  engine of \<open>re\<close> tries them; the first is the match.
\<close>

type_synonym pos = "bool \<times> ustr"

type_synonym matcher = "pos \<Rightarrow> ustr list"

definition after :: "pos \<Rightarrow> ustr \<Rightarrow> pos" where
  "after p x = (if x = [] then p else (last x = 10, drop (length x) (snd p)))"

definition lit :: "ustr \<Rightarrow> matcher" where
  "lit w p = (if prefix w (snd p) then [w] else [])"

definition bol :: matcher where
  \<comment> \<open>\<open>^\<close> under MULTILINE\<close>
  "bol p = (if fst p then [[]] else [])"

definition eol :: matcher where
  \<comment> \<open>\<open>$\<close> under MULTILINE\<close>
  "eol p = (case snd p of [] \<Rightarrow> [[]] | c # cs \<Rightarrow> if c = 10 then [[]] else [])"

definition eos :: matcher where
  \<comment> \<open>\<open>\Z\<close>\<close>
  "eos p = (if snd p = [] then [[]] else [])"

definition star :: "(nat \<Rightarrow> bool) \<Rightarrow> matcher" where
  \<comment> \<open>\<open>c*\<close>, greedy: the longest run first\<close>
  "star P p = rev (prefixes (takeWhile P (snd p)))"

definition plus :: "(nat \<Rightarrow> bool) \<Rightarrow> matcher" where
  \<comment> \<open>\<open>c+\<close>, greedy\<close>
  "plus P p = rev (tl (prefixes (takeWhile P (snd p))))"

definition star_lazy :: "(nat \<Rightarrow> bool) \<Rightarrow> matcher" where
  \<comment> \<open>\<open>c*?\<close>: the shortest run first\<close>
  "star_lazy P p = prefixes (takeWhile P (snd p))"

definition plus_lazy :: "(nat \<Rightarrow> bool) \<Rightarrow> matcher" where
  \<comment> \<open>\<open>c+?\<close>\<close>
  "plus_lazy P p = tl (prefixes (takeWhile P (snd p)))"

definition seq :: "matcher \<Rightarrow> matcher \<Rightarrow> matcher" where
  "seq a b p = concat (map (\<lambda>x. map (\<lambda>y. x @ y) (b (after p x))) (a p))"

definition alt :: "matcher \<Rightarrow> matcher \<Rightarrow> matcher" where
  "alt a b p = a p @ b p"

definition ahead :: "matcher \<Rightarrow> matcher" where
  \<comment> \<open>\<open>(?=a)\<close>\<close>
  "ahead a p = (if a p = [] then [] else [[]])"

definition seq2 :: "matcher \<Rightarrow> matcher \<Rightarrow> pos \<Rightarrow> (ustr \<times> ustr) list" where
  \<comment> \<open>two parts in sequence, each kept: where a group ends and the next part starts\<close>
  "seq2 a b p = concat (map (\<lambda>x. map (\<lambda>y. (x, y)) (b (after p x))) (a p))"

definition seq3 :: "matcher \<Rightarrow> matcher \<Rightarrow> matcher \<Rightarrow> pos \<Rightarrow> (ustr \<times> ustr \<times> ustr) list" where
  "seq3 a b c p =
     concat (map (\<lambda>x. concat (map (\<lambda>y. map (\<lambda>z. (x, y, z)) (c (after (after p x) y)))
                                   (b (after p x)))) (a p))"

fun search :: "(pos \<Rightarrow> 'a list) \<Rightarrow> bool \<Rightarrow> ustr \<Rightarrow> (ustr \<times> 'a) option" where
  \<comment> \<open>\<open>re.search\<close>: the first position, from the left, at which the pattern matches; the
      result is the text before the match and the match\<close>
  "search m b [] = (case m (b, []) of [] \<Rightarrow> None | x # xs \<Rightarrow> Some ([], x))"
| "search m b (c # cs) =
     (case m (b, c # cs) of
        [] \<Rightarrow> (case search m (c = 10) cs of None \<Rightarrow> None | Some (pre, x) \<Rightarrow> Some (c # pre, x))
      | x # xs \<Rightarrow> Some ([], x))"

fun sub_loop :: "(pos \<Rightarrow> 'a list) \<Rightarrow> ('a \<Rightarrow> ustr) \<Rightarrow> ('a \<Rightarrow> ustr) \<Rightarrow> nat \<Rightarrow> bool \<Rightarrow> ustr \<Rightarrow> ustr" where
  \<comment> \<open>the scan of \<open>re.sub\<close>: every match from the left, none overlapping another, replaced by
      \<open>repl\<close> of it. The counter is the number of characters of the last match still to be
      passed over. The patterns of this program all hold a literal character, so no match
      is empty, and the rules of \<open>re.sub\<close> on empty matches are not modelled.\<close>
  "sub_loop m whole repl k b [] = []"
| "sub_loop m whole repl (Suc k) b (c # cs) = sub_loop m whole repl k (c = 10) cs"
| "sub_loop m whole repl 0 b (c # cs) =
     (case m (b, c # cs) of
        [] \<Rightarrow> c # sub_loop m whole repl 0 (c = 10) cs
      | x # xs \<Rightarrow> repl x @ sub_loop m whole repl (length (whole x) - 1) (c = 10) cs)"

fun findall_loop :: "(pos \<Rightarrow> ustr list) \<Rightarrow> nat \<Rightarrow> bool \<Rightarrow> ustr \<Rightarrow> ustr list" where
  \<comment> \<open>the scan of \<open>re.findall\<close>, as that of \<open>re.sub\<close>: the matches from the left\<close>
  "findall_loop m k b [] = []"
| "findall_loop m (Suc k) b (c # cs) = findall_loop m k (c = 10) cs"
| "findall_loop m 0 b (c # cs) =
     (case m (b, c # cs) of
        [] \<Rightarrow> findall_loop m 0 (c = 10) cs
      | x # xs \<Rightarrow> x # findall_loop m (length x - 1) (c = 10) cs)"

definition findall :: "(pos \<Rightarrow> ustr list) \<Rightarrow> ustr \<Rightarrow> ustr list" where
  "findall m s = findall_loop m 0 True s"

subsection \<open>Replacement templates\<close>

text \<open>
  A replacement given to \<open>re.sub\<close> as a string is a template: \<open>re\<close> reads its backslash
  escapes before it substitutes (\<open>parse_template\<close> of the module). An escape it does not
  know, or a reference to a group the pattern does not have, raises \<open>re.error\<close>; the
  name of a group that does not exist raises \<open>IndexError\<close>. Both are \<open>TemplateError\<close> here.
  A group is referred to by its number written in ASCII digits (the rule of Python 3.12;
  older versions also accept other spellings of a number).
\<close>

datatype error = TemplateError | AttributeError

datatype titem = TLit ustr | TGroup nat

definition add_item :: "titem \<Rightarrow> error + titem list \<Rightarrow> error + titem list" where
  "add_item i r = (case r of Inl e \<Rightarrow> Inl e | Inr items \<Rightarrow> Inr (i # items))"

definition ascii_digit :: "nat \<Rightarrow> bool" where
  "ascii_digit c \<longleftrightarrow> 48 \<le> c \<and> c \<le> 57"

definition oct_digit :: "nat \<Rightarrow> bool" where
  "oct_digit c \<longleftrightarrow> 48 \<le> c \<and> c \<le> 55"

definition ascii_letter :: "nat \<Rightarrow> bool" where
  "ascii_letter c \<longleftrightarrow> (65 \<le> c \<and> c \<le> 90) \<or> (97 \<le> c \<and> c \<le> 122)"

definition number_of :: "nat \<Rightarrow> ustr \<Rightarrow> nat" where
  \<comment> \<open>\<open>int(ds, base)\<close> of a text of digits\<close>
  "number_of base ds = foldl (\<lambda>n d. base * n + (d - 48)) 0 ds"

definition escape_of :: "nat \<Rightarrow> nat option" where
  \<comment> \<open>the table ESCAPES: a, b, f, n, r, t, v and the backslash\<close>
  "escape_of c =
     (if c = 97 then Some 7 else if c = 98 then Some 8 else if c = 102 then Some 12
      else if c = 110 then Some 10 else if c = 114 then Some 13 else if c = 116 then Some 9
      else if c = 118 then Some 11 else if c = 92 then Some 92 else None)"

fun parse_template :: "nat \<Rightarrow> ustr \<Rightarrow> error + titem list" where
  \<comment> \<open>\<open>groups\<close> is the number of groups of the pattern\<close>
  "parse_template groups [] = Inr []"
| "parse_template groups (c # cs) =
     (if c \<noteq> 92 then add_item (TLit [c]) (parse_template groups cs)
      else case cs of
        [] \<Rightarrow> Inl TemplateError
      | d # ds \<Rightarrow>
          if d = 103 then
            (case ds of
               [] \<Rightarrow> Inl TemplateError
             | e # es \<Rightarrow>
                 if e \<noteq> 60 then Inl TemplateError
                 else let name = takeWhile (\<lambda>x. x \<noteq> 62) es in
                   if length name = length es \<or> name = [] \<or> \<not> list_all ascii_digit name
                   then Inl TemplateError
                   else if number_of 10 name > groups then Inl TemplateError
                   else add_item (TGroup (number_of 10 name))
                          (parse_template groups (drop (Suc (length name)) es)))
          else if d = 48 then
            (let oct = takeWhile oct_digit (take 2 ds) in
               add_item (TLit [number_of 8 oct mod 256])
                 (parse_template groups (drop (length oct) ds)))
          else if ascii_digit d then
            (case ds of
               [] \<Rightarrow> if d - 48 > groups then Inl TemplateError
                     else add_item (TGroup (d - 48)) (parse_template groups [])
             | d2 # ds2 \<Rightarrow>
                 if ascii_digit d2 then
                   (case ds2 of
                      [] \<Rightarrow> if number_of 10 [d, d2] > groups then Inl TemplateError
                            else add_item (TGroup (number_of 10 [d, d2])) (parse_template groups [])
                    | d3 # ds3 \<Rightarrow>
                        if oct_digit d \<and> oct_digit d2 \<and> oct_digit d3 then
                          (if number_of 8 [d, d2, d3] > 255 then Inl TemplateError
                           else add_item (TLit [number_of 8 [d, d2, d3]])
                                  (parse_template groups ds3))
                        else if number_of 10 [d, d2] > groups then Inl TemplateError
                        else add_item (TGroup (number_of 10 [d, d2]))
                               (parse_template groups (d3 # ds3)))
                 else if d - 48 > groups then Inl TemplateError
                 else add_item (TGroup (d - 48)) (parse_template groups (d2 # ds2)))
          else (case escape_of d of
                  Some v \<Rightarrow> add_item (TLit [v]) (parse_template groups ds)
                | None \<Rightarrow> if ascii_letter d then Inl TemplateError
                          else add_item (TLit [92, d]) (parse_template groups ds)))"

fun expand_item :: "ustr list \<Rightarrow> titem \<Rightarrow> ustr" where
  "expand_item gs (TLit s) = s"
| "expand_item gs (TGroup i) = gs ! i"

definition expand_template :: "titem list \<Rightarrow> ustr list \<Rightarrow> ustr" where
  \<comment> \<open>\<open>gs\<close>: the whole match, then the groups in order; a parsed template refers to no other\<close>
  "expand_template t gs = concat (map (expand_item gs) t)"

definition re_sub :: "(pos \<Rightarrow> 'a list) \<Rightarrow> ('a \<Rightarrow> ustr list) \<Rightarrow> nat \<Rightarrow> ustr \<Rightarrow> ustr \<Rightarrow> error + ustr" where
  \<comment> \<open>\<open>re.sub(pattern, repl, s)\<close> with \<open>repl\<close> a string; \<open>gs\<close> gives the whole match and then
      the groups of a match, \<open>groups\<close> is their number\<close>
  "re_sub m gs groups repl s =
     (case parse_template groups repl of
        Inl e \<Rightarrow> Inl e
      | Inr t \<Rightarrow> Inr (sub_loop m (\<lambda>x. hd (gs x)) (\<lambda>x. expand_template t (gs x)) 0 True s))"

section \<open>The program\<close>

definition PROGRESS_START :: ustr where
  "PROGRESS_START = U ''<!-- PROGRESS:START -->''"

definition PROGRESS_END :: ustr where
  "PROGRESS_END = U ''<!-- PROGRESS:END -->''"

definition placeholder :: ustr where
  "placeholder = U ''(none yet)''"

definition heading_end :: matcher where
  \<comment> \<open>\<open>(?=^## |\Z)\<close>\<close>
  "heading_end = ahead (alt (seq bol (lit (U ''## ''))) eos)"

definition category_pattern :: "ustr \<Rightarrow> matcher" where
  \<comment> \<open>\<open>(?m)^## TITLE\s*(.+?)(?=^## |\Z)\<close> under DOTALL, the title escaped\<close>
  "category_pattern category_title =
     seq bol (seq (lit (U ''## '' @ category_title)) (seq (star is_space)
       (seq (plus_lazy any_char) heading_end)))"

definition upsert_category_block :: "ustr \<Rightarrow> ustr \<Rightarrow> ustr" where
  "upsert_category_block progress_block category_title =
     (case search (category_pattern category_title) True progress_block of
        Some m \<Rightarrow> progress_block
      | None \<Rightarrow> rstrip progress_block @ [10, 10] @ U ''## '' @ category_title @ [10]
                 @ placeholder @ [10, 10])"

definition section_pattern :: "ustr \<Rightarrow> pos \<Rightarrow> (ustr \<times> ustr) list" where
  \<comment> \<open>\<open>(?ms)(^## TITLE\s*)(.+?)(?=^## |\Z)\<close>: group 1, group 2\<close>
  "section_pattern category_title =
     seq2 (seq bol (seq (lit (U ''## '' @ category_title)) (star is_space)))
          (seq (plus_lazy any_char) heading_end)"

definition entry_pattern :: "ustr \<Rightarrow> matcher" where
  \<comment> \<open>\<open>(?m)^- \[ \] \[NAME\]\([^)]+\) (em dash) `[^`]+`$\<close>, the name escaped; 41 is the closing
      parenthesis, 8212 the em dash, 96 the backquote\<close>
  "entry_pattern problem_name =
     seq bol (seq (lit (U ''- [ ] ['' @ problem_name @ U ''](''))
       (seq (plus (\<lambda>c. c \<noteq> 41)) (seq (lit ([41, 32, 8212, 32, 96]))
         (seq (plus (\<lambda>c. c \<noteq> 96)) (seq (lit [96]) eol)))))"

definition entry_line :: "bool \<Rightarrow> ustr \<Rightarrow> ustr \<Rightarrow> ustr \<Rightarrow> ustr" where
  \<comment> \<open>\<open>f"- {checkbox} [{problem_name}]({link}) (em dash) `{path_str}`"\<close>\<close>
  "entry_line done problem_name link path_str =
     U ''- '' @ (if done then U ''[x]'' else U ''[ ]'') @ U '' ['' @ problem_name @ U ''](''
       @ link @ [41, 32, 8212, 32, 96] @ path_str @ [96]"

definition add_problem_checkbox :: "ustr \<Rightarrow> ustr \<Rightarrow> ustr \<Rightarrow> ustr \<Rightarrow> ustr \<Rightarrow> bool \<Rightarrow> error + ustr" where
  "add_problem_checkbox progress_block0 category_title problem_name link path_str done =
     (let pattern = section_pattern category_title;
          match0 = search pattern True progress_block0;
          progress_block = (if match0 = None
                            then upsert_category_block progress_block0 category_title
                            else progress_block0);
          match = (if match0 = None then search pattern True progress_block else match0)
      in case match of
           None \<Rightarrow> Inl AttributeError
         | Some (pre, section_start, section_body) \<Rightarrow>
             let line = entry_line done problem_name link path_str;
                 new_body =
                   (if contains placeholder section_body
                    then replace_str section_body placeholder line
                    else if contains (U ''['' @ problem_name @ U '']('') section_body
                    then (if done
                          then sub_loop (entry_pattern problem_name) (\<lambda>x. x)
                                 (\<lambda>x. replace_str x (U ''[ ]'') (U ''[x]'')) 0 True section_body
                          else section_body)
                    else rstrip section_body @ [10] @ line @ [10]);
                 end_idx = length pre + length section_start + length section_body
             in Inr (pre @ section_start @ new_body @ drop end_idx progress_block))"

definition progress_pattern :: "pos \<Rightarrow> (ustr \<times> ustr \<times> ustr) list" where
  \<comment> \<open>\<open>START(.*?)END\<close> under DOTALL, the markers escaped: the marker, group 1, the marker\<close>
  "progress_pattern = seq3 (lit PROGRESS_START) (star_lazy any_char) (lit PROGRESS_END)"

definition extract_progress_block :: "ustr \<Rightarrow> ustr" where
  "extract_progress_block readme =
     (case search progress_pattern True readme of
        None \<Rightarrow> PROGRESS_START @ [10] @ U ''## Arrays'' @ [10] @ placeholder @ [10, 10]
                 @ PROGRESS_END
      | Some (pre, s, inner, e) \<Rightarrow> inner)"

definition done_pattern :: matcher where
  \<comment> \<open>\<open>(?m)^- \[x\]\<close>\<close>
  "done_pattern = seq bol (lit (U ''- [x]''))"

definition summary_pattern :: "pos \<Rightarrow> (ustr \<times> ustr) list" where
  \<comment> \<open>\<open>(?m)^(## Progress Summary\s*\n- Total: )\d+ done / \d+ planned$\<close>: group 1, the rest\<close>
  "summary_pattern =
     seq2 (seq bol (seq (lit (U ''## Progress Summary'')) (seq (star is_space)
             (lit ([10] @ U ''- Total: '')))))
          (seq (plus is_decimal) (seq (lit (U '' done / '')) (seq (plus is_decimal)
             (seq (lit (U '' planned'')) eol))))"

definition update_summary_counts :: "ustr \<Rightarrow> error + ustr" where
  \<comment> \<open>the source also counts all entry lines, in \<open>total\<close>, and does not use the number\<close>
  "update_summary_counts readme =
     (let progress = extract_progress_block readme;
          done = length (findall done_pattern progress)
      in re_sub summary_pattern (\<lambda>(g1, r). [g1 @ r, g1]) 1
           ([92] @ U ''g<1>'' @ str_of_nat done @ U '' done / 150 planned'') readme)"

definition replace_progress_block :: "ustr \<Rightarrow> ustr \<Rightarrow> error + ustr" where
  "replace_progress_block readme new_block =
     (case search progress_pattern True readme of
        Some m \<Rightarrow> re_sub progress_pattern (\<lambda>(s, inner, e). [s @ inner @ e, inner]) 1
                   (PROGRESS_START @ new_block @ PROGRESS_END) readme
      | None \<Rightarrow> Inr (rstrip readme @ [10, 10] @ PROGRESS_START @ new_block @ PROGRESS_END @ [10]))"

section \<open>Vocabulary of the properties\<close>

definition bol_after :: "bool \<Rightarrow> ustr \<Rightarrow> bool" where
  \<comment> \<open>is the position after \<open>pre\<close> at the start of a line, \<open>b\<close> telling it of the empty text\<close>
  "bol_after b pre = (if pre = [] then b else last pre = 10)"

definition at_heading_end :: "bool \<Rightarrow> ustr \<Rightarrow> bool" where
  \<comment> \<open>a section ends here: a line starting with \<open>## \<close> follows, or nothing does\<close>
  "at_heading_end b r \<longleftrightarrow> (b \<and> prefix (U ''## '') r) \<or> r = []"

fun starts_line :: "ustr \<Rightarrow> bool \<Rightarrow> ustr \<Rightarrow> bool" where
  \<comment> \<open>some line of the text starts with \<open>w\<close>; \<open>b\<close> tells whether the text itself starts a line\<close>
  "starts_line w b [] = (b \<and> w = [])"
| "starts_line w b (c # cs) = ((b \<and> prefix w (c # cs)) \<or> starts_line w (c = 10) cs)"

text \<open>
  The section of a title in a region, as a reader of the region sees it: the region is
  \<open>pre\<close>, the heading \<open>## title\<close> on the first line that starts with it, the white space
  \<open>ws\<close> after the heading, the body, which starts with a printing character and runs to the
  next line that starts with \<open>## \<close> or to the end of the region, and the rest.
\<close>

definition section_at :: "ustr \<Rightarrow> ustr \<Rightarrow> ustr \<Rightarrow> ustr \<Rightarrow> ustr \<Rightarrow> ustr \<Rightarrow> bool" where
  "section_at region title pre ws body rest \<longleftrightarrow>
     region = pre @ (U ''## '' @ title) @ ws @ body @ rest \<and>
     bol_after True pre \<and>
     \<not> starts_line (U ''## '' @ title) True (pre @ butlast (U ''## '' @ title)) \<and>
     list_all is_space ws \<and> body \<noteq> [] \<and> \<not> is_space (hd body) \<and>
     \<not> starts_line (U ''## '') False (body @ take 2 rest) \<and>
     (rest = [] \<or> (last body = 10 \<and> prefix (U ''## '') rest))"


fun lines_of :: "ustr \<Rightarrow> ustr list" where
  \<comment> \<open>the lines of a text, \<open>s.split("\n")\<close>\<close>
  "lines_of [] = [[]]"
| "lines_of (c # cs) =
     (if c = 10 then [] # lines_of cs else (c # hd (lines_of cs)) # tl (lines_of cs))"

definition done_lines :: "ustr \<Rightarrow> nat" where
  \<comment> \<open>the number of lines that begin with \<open>- [x]\<close>\<close>
  "done_lines s = length (filter (prefix (U ''- [x]'')) (lines_of s))"

definition decimal_value :: "ustr \<Rightarrow> nat" where
  \<comment> \<open>the number that a text of the digits 0 to 9 denotes\<close>
  "decimal_value ds = foldl (\<lambda>n c. 10 * n + (c - 48)) 0 ds"

definition digits_then :: "ustr \<Rightarrow> ustr \<Rightarrow> ustr option" where
  \<comment> \<open>a decimal number and the text \<open>w\<close> after it: what follows them\<close>
  "digits_then w r =
     (if takeWhile is_decimal r \<noteq> [] \<and> prefix w (dropWhile is_decimal r)
      then Some (drop (length w) (dropWhile is_decimal r)) else None)"

definition summary_here :: "ustr \<Rightarrow> bool" where
  \<comment> \<open>the text starts with a summary line: the heading \<open>## Progress Summary\<close>, white space that
      ends with a line break, and the line \<open>- Total: n done / m planned\<close>\<close>
  "summary_here r \<longleftrightarrow>
     prefix (U ''## Progress Summary'') r \<and>
     (let r1 = drop (length (U ''## Progress Summary'')) r;
          w = takeWhile is_space r1; t = dropWhile is_space r1
      in w \<noteq> [] \<and> last w = 10 \<and> prefix (U ''- Total: '') t \<and>
         (case digits_then (U '' done / '') (drop (length (U ''- Total: '')) t) of
            None \<Rightarrow> False
          | Some t2 \<Rightarrow>
              (case digits_then (U '' planned'') t2 of
                 None \<Rightarrow> False
               | Some t4 \<Rightarrow> t4 = [] \<or> hd t4 = 10)))"

fun summary_lines :: "bool \<Rightarrow> ustr \<Rightarrow> nat list" where
  \<comment> \<open>where the summary lines of a document start: the number of characters before each\<close>
  "summary_lines b [] = []"
| "summary_lines b (c # cs) =
     (if b \<and> summary_here (c # cs) then [0] else []) @ map Suc (summary_lines (c = 10) cs)"

text \<open>
  A summary line in a document: the document is \<open>pre\<close>, the heading at the start of a line,
  the white space \<open>ws\<close> and a line break, the line \<open>- Total: d done / p planned\<close> with the
  decimal numbers \<open>d\<close> and \<open>p\<close>, and the rest, which is empty or starts with a line break.
\<close>

definition summary_at :: "ustr \<Rightarrow> ustr \<Rightarrow> ustr \<Rightarrow> ustr \<Rightarrow> ustr \<Rightarrow> ustr \<Rightarrow> bool" where
  "summary_at readme pre ws d p post \<longleftrightarrow>
     readme = pre @ (U ''## Progress Summary'' @ ws @ [10] @ U ''- Total: '')
                @ (d @ U '' done / '' @ p @ U '' planned'') @ post \<and>
     bol_after True pre \<and>
     list_all is_space ws \<and> d \<noteq> [] \<and> list_all is_decimal d \<and> p \<noteq> [] \<and> list_all is_decimal p \<and>
     (post = [] \<or> hd post = 10)"



section \<open>Searching\<close>

lemma bol_after_Nil [simp]: "bol_after b [] = b"
  by (simp add: bol_after_def)

lemma bol_after_Cons [simp]: "bol_after b (c # cs) = bol_after (c = 10) cs"
  by (simp add: bol_after_def)

lemma bol_after_append [simp]: "bol_after b (xs @ ys) = bol_after (bol_after b xs) ys"
  by (induction xs arbitrary: b) auto

lemma search_None_iff:
  "search m b s = None \<longleftrightarrow> (\<forall>pre suf. s = pre @ suf \<longrightarrow> m (bol_after b pre, suf) = [])"
proof (induction s arbitrary: b)
  case Nil
  then show ?case by (auto split: list.splits)
next
  case (Cons c cs)
  show ?case
  proof (cases "m (b, c # cs)")
    case Nil
    have "(\<forall>pre suf. c # cs = pre @ suf \<longrightarrow> m (bol_after b pre, suf) = []) \<longleftrightarrow>
          (\<forall>pre suf. cs = pre @ suf \<longrightarrow> m (bol_after (c = 10) pre, suf) = [])"
    proof (intro iffI allI impI)
      fix pre suf
      assume a: "\<forall>pre suf. c # cs = pre @ suf \<longrightarrow> m (bol_after b pre, suf) = []" and "cs = pre @ suf"
      then have "c # cs = (c # pre) @ suf" by simp
      with a have "m (bol_after b (c # pre), suf) = []" by blast
      then show "m (bol_after (c = 10) pre, suf) = []" by simp
    next
      fix pre suf
      assume a: "\<forall>pre suf. cs = pre @ suf \<longrightarrow> m (bol_after (c = 10) pre, suf) = []" and e: "c # cs = pre @ suf"
      show "m (bol_after b pre, suf) = []"
      proof (cases pre)
        case Nil
        with e \<open>m (b, c # cs) = []\<close> show ?thesis by simp
      next
        case (Cons d ds)
        with e a show ?thesis by auto
      qed
    qed
    then show ?thesis using Nil Cons.IH [of "c = 10"] by (auto split: option.splits)
  next
    case (Cons x xs)
    then have "\<not> (\<forall>pre suf. c # cs = pre @ suf \<longrightarrow> m (bol_after b pre, suf) = [])"
      by (auto intro: exI [of _ "[]"])
    then show ?thesis using Cons by auto
  qed
qed

lemma search_SomeD:
  "search m b s = Some (pre, x) \<Longrightarrow>
     \<exists>suf xs. s = pre @ suf \<and> m (bol_after b pre, suf) = x # xs \<and>
       (\<forall>pre' suf'. s = pre' @ suf' \<and> length pre' < length pre \<longrightarrow> m (bol_after b pre', suf') = [])"
proof (induction s arbitrary: b pre)
  case Nil
  then show ?case by (auto split: list.splits)
next
  case (Cons c cs)
  show ?case
  proof (cases "m (b, c # cs)")
    case Nil
    with Cons.prems obtain pre0 where s: "search m (c = 10) cs = Some (pre0, x)" and pre: "pre = c # pre0"
      by (auto split: option.splits)
    from Cons.IH [OF s] obtain suf xs where
      *: "cs = pre0 @ suf" "m (bol_after (c = 10) pre0, suf) = x # xs"
      "\<forall>pre' suf'. cs = pre' @ suf' \<and> length pre' < length pre0 \<longrightarrow> m (bol_after (c = 10) pre', suf') = []"
      by blast
    have "\<forall>pre' suf'. c # cs = pre' @ suf' \<and> length pre' < length pre \<longrightarrow> m (bol_after b pre', suf') = []"
      using *(3) Nil pre by (auto simp: Cons_eq_append_conv)
    then show ?thesis using * pre by auto
  next
    case (Cons y ys)
    with Cons.prems show ?thesis by auto
  qed
qed

lemma search_SomeI:
  assumes "s = pre @ suf" "m (bol_after b pre, suf) = x # xs"
    "\<And>pre' suf'. s = pre' @ suf' \<Longrightarrow> length pre' < length pre \<Longrightarrow> m (bol_after b pre', suf') = []"
  shows "search m b s = Some (pre, x)"
proof (cases "search m b s")
  case None
  then show ?thesis using assms(1,2) by (simp add: search_None_iff)
next
  case (Some r)
  obtain pre2 x2 where r: "r = (pre2, x2)" by (cases r)
  from search_SomeD [OF Some [unfolded r]] obtain suf2 xs2 where
    *: "s = pre2 @ suf2" "m (bol_after b pre2, suf2) = x2 # xs2"
    "\<forall>pre' suf'. s = pre' @ suf' \<and> length pre' < length pre2 \<longrightarrow> m (bol_after b pre', suf') = []"
    by blast
  have "\<not> length pre2 < length pre" using assms(3) [OF *(1)] *(2) by auto
  moreover have "\<not> length pre < length pre2" using * assms(1,2) by auto
  ultimately have "length pre = length pre2" by simp
  with assms(1) *(1) have "pre = pre2" "suf = suf2" by (auto simp: append_eq_append_conv)
  with * assms Some r show ?thesis by auto
qed


lemma snd_after [simp]: "snd (after p x) = drop (length x) (snd p)"
  by (simp add: after_def)

lemma fst_after [simp]: "fst (after p x) = bol_after (fst p) x"
  by (simp add: after_def bol_after_def)

lemma after_pair: "after (b, r) x = (bol_after b x, drop (length x) r)"
  by (simp add: prod_eq_iff)

lemma takeWhile_any_char [simp]: "takeWhile any_char xs = xs"
  by (induction xs) (auto simp: any_char_def)

lemma concat_map_if: "concat (map (\<lambda>y. if Q y then [f y] else []) ys) = map f (filter Q ys)"
  by (induction ys) auto

lemma filter_prefixes_ConsD:
  "filter Q (prefixes r) = y # ys \<Longrightarrow> prefix y r \<and> Q y \<and> (\<forall>y'. strict_prefix y' y \<longrightarrow> \<not> Q y')"
proof (induction r arbitrary: Q y ys)
  case Nil
  then show ?case by (auto split: if_splits)
next
  case (Cons x xs)
  show ?case
  proof (cases "Q []")
    case True
    with Cons.prems show ?thesis by auto
  next
    case False
    with Cons.prems have "map ((#) x) (filter (Q \<circ> (#) x) (prefixes xs)) = y # ys"
      by (simp add: filter_map)
    then obtain y0 ys0 where f: "filter (Q \<circ> (#) x) (prefixes xs) = y0 # ys0" and y: "y = x # y0"
      by (auto simp: map_eq_Cons_conv)
    from Cons.IH [OF f] have *: "prefix y0 xs" "Q (x # y0)" "\<forall>y'. strict_prefix y' y0 \<longrightarrow> \<not> Q (x # y')"
      by auto
    have "\<not> Q y'" if "strict_prefix y' y" for y'
    proof (cases y')
      case Nil
      with False show ?thesis by simp
    next
      case (Cons a as)
      with that y * show ?thesis by auto
    qed
    with * y show ?thesis by auto
  qed
qed

lemma filter_prefixes_ConsI:
  assumes "prefix y r" "Q y" "\<And>y'. strict_prefix y' y \<Longrightarrow> \<not> Q y'"
  shows "\<exists>ys. filter Q (prefixes r) = y # ys"
proof (cases "filter Q (prefixes r)")
  case Nil
  then have "\<forall>x\<in>set (prefixes r). \<not> Q x" by (simp add: filter_empty_conv)
  with assms(1,2) show ?thesis by auto
next
  case (Cons z zs)
  from filter_prefixes_ConsD [OF Cons] have *: "prefix z r" "Q z" "\<forall>y'. strict_prefix y' z \<longrightarrow> \<not> Q y'"
    by auto
  from assms(1) *(1) have "prefix y z \<or> prefix z y" by (rule prefix_same_cases)
  then have "y = z" using assms(2,3) * by (auto simp: strict_prefix_def)
  with Cons show ?thesis by simp
qed

lemma lit_lazy_lit:
  "seq3 (lit A) (star_lazy any_char) (lit B) (b, r) =
     (if prefix A r
      then map (\<lambda>y. (A, y, B))
             (filter (\<lambda>y. prefix B (drop (length y) (drop (length A) r))) (prefixes (drop (length A) r)))
      else [])"
proof -
  have m: "map f (if c then [a] else []) = (if c then [f a] else [])" for f :: "ustr \<Rightarrow> ustr \<times> ustr \<times> ustr" and c a
    by simp
  show ?thesis
    by (simp add: seq3_def lit_def star_lazy_def m concat_map_if add.commute)
qed


lemma prefix_drop: "prefix xs ys \<Longrightarrow> ys = xs @ drop (length xs) ys"
  by (auto simp: prefix_def)

lemma occurs_early:
  assumes "prefix B (drop n (X @ B @ R))" "n < length X"
  shows "sublist B (X @ butlast B)"
proof (cases "B = []")
  case True
  then show ?thesis by simp
next
  case False
  then have e: "X @ B @ R = (X @ butlast B) @ (last B # R)" by simp
  have "B = take (length B) (drop n (X @ B @ R))"
    using assms(1) by (metis append_eq_conv_conj prefix_def)
  also have "\<dots> = take (length B) (drop n (X @ butlast B))"
    using assms(2) False unfolding e by (simp add: Suc_leI)
  finally have "B = take (length B) (drop n (X @ butlast B))" .
  moreover have "sublist (take (length B) (drop n (X @ butlast B))) (X @ butlast B)"
    by (meson sublist_drop sublist_order.order.trans sublist_take)
  ultimately show ?thesis by simp
qed

lemma lit_lazy_lit_Nil:
  "seq3 (lit A) (star_lazy any_char) (lit B) (b, r) = [] \<longleftrightarrow>
     \<not> (\<exists>mid post. r = A @ mid @ B @ post)"
proof
  assume n: "seq3 (lit A) (star_lazy any_char) (lit B) (b, r) = []"
  show "\<not> (\<exists>mid post. r = A @ mid @ B @ post)"
  proof
    assume "\<exists>mid post. r = A @ mid @ B @ post"
    then obtain mid post where r: "r = A @ mid @ B @ post" by blast
    then have m: "prefix mid (drop (length A) r)" "prefix B (drop (length mid) (drop (length A) r))"
      and a: "prefix A r"
      by simp_all
    from n a have "filter (\<lambda>y. prefix B (drop (length y) (drop (length A) r)))
        (prefixes (drop (length A) r)) = []"
      by (simp only: lit_lazy_lit if_True map_is_Nil_conv)
    then have "\<forall>y\<in>set (prefixes (drop (length A) r)). \<not> prefix B (drop (length y) (drop (length A) r))"
      by (simp only: filter_empty_conv)
    with m show False by auto
  qed
next
  assume n: "\<not> (\<exists>mid post. r = A @ mid @ B @ post)"
  have "\<not> prefix B (drop (length y) (drop (length A) r))" if "prefix A r" "prefix y (drop (length A) r)" for y
  proof
    assume "prefix B (drop (length y) (drop (length A) r))"
    then obtain post where "drop (length y) (drop (length A) r) = B @ post" by (auto simp: prefix_def)
    moreover from that(2) have "drop (length A) r = y @ drop (length y) (drop (length A) r)"
      by (rule prefix_drop)
    moreover from that(1) have "r = A @ drop (length A) r" by (rule prefix_drop)
    ultimately have "r = A @ y @ B @ post" by simp
    with n show False by blast
  qed
  then show "seq3 (lit A) (star_lazy any_char) (lit B) (b, r) = []"
    by (auto simp: lit_lazy_lit filter_empty_conv)
qed

lemma lit_lazy_lit_first:
  assumes "r = A @ mid @ B @ post" "\<not> sublist B (mid @ butlast B)"
  shows "\<exists>xs. seq3 (lit A) (star_lazy any_char) (lit B) (b, r) = (A, mid, B) # xs"
proof -
  let ?Q = "\<lambda>y. prefix B (drop (length y) (drop (length A) r))"
  have 1: "prefix mid (drop (length A) r)" and 2: "?Q mid" using assms(1) by simp_all
  have 3: "\<not> ?Q y'" if "strict_prefix y' mid" for y'
  proof
    assume "?Q y'"
    then have "prefix B (drop (length y') (mid @ B @ post))" using assms(1) by simp
    moreover have "length y' < length mid" using that by (rule prefix_length_less)
    ultimately have "sublist B (mid @ butlast B)" by (rule occurs_early)
    with assms(2) show False by simp
  qed
  from filter_prefixes_ConsI [of mid "drop (length A) r" ?Q, OF 1 2 3]
  obtain ys where "filter ?Q (prefixes (drop (length A) r)) = mid # ys" by blast
  then show ?thesis using assms(1) by (simp add: lit_lazy_lit)
qed

lemma extract_absent:
  assumes "\<not> (\<exists>pre mid post. readme = pre @ PROGRESS_START @ mid @ PROGRESS_END @ post)"
  shows "search progress_pattern True readme = None"
  unfolding search_None_iff progress_pattern_def lit_lazy_lit_Nil using assms by auto

lemma extract_present:
  assumes "readme = pre @ PROGRESS_START @ mid @ PROGRESS_END @ post"
    "\<not> sublist PROGRESS_START (pre @ butlast PROGRESS_START)"
    "\<not> sublist PROGRESS_END (mid @ butlast PROGRESS_END)"
  shows "search progress_pattern True readme = Some (pre, PROGRESS_START, mid, PROGRESS_END)"
proof -
  obtain xs where x: "progress_pattern (bol_after True pre, PROGRESS_START @ mid @ PROGRESS_END @ post)
      = (PROGRESS_START, mid, PROGRESS_END) # xs"
    unfolding progress_pattern_def using lit_lazy_lit_first [OF refl assms(3)] by blast
  show ?thesis
  proof (rule search_SomeI [where m = progress_pattern and b = True and pre = pre
        and suf = "PROGRESS_START @ mid @ PROGRESS_END @ post" and xs = xs, OF assms(1) x])
    fix pre' suf'
    assume e: "readme = pre' @ suf'" and l: "length pre' < length pre"
    have "\<not> prefix PROGRESS_START suf'"
    proof
      assume "prefix PROGRESS_START suf'"
      moreover have "suf' = drop (length pre') (pre @ PROGRESS_START @ mid @ PROGRESS_END @ post)"
        using e assms(1) by (metis append_eq_conv_conj)
      ultimately have "sublist PROGRESS_START (pre @ butlast PROGRESS_START)"
        using occurs_early [of PROGRESS_START "length pre'" pre "mid @ PROGRESS_END @ post"] l by simp
      with assms(2) show False by simp
    qed
    then show "progress_pattern (bol_after True pre', suf') = []"
      by (simp add: progress_pattern_def lit_lazy_lit)
  qed
qed

section \<open>Sections of a region\<close>

lemma after_Nil [simp]: "after p [] = p"
  by (simp add: after_def)

lemma append_Nil_fun [simp]: "(@) [] = (\<lambda>x. x)"
  by (rule ext) simp

lemma seq_bol: "seq bol m p = (if fst p then m p else [])"
  by (simp add: seq_def bol_def)

lemma seq_lit: "seq (lit w) m p = (if prefix w (snd p) then map ((@) w) (m (after p w)) else [])"
  by (simp add: seq_def lit_def)

lemma heading_end_eq: "heading_end (b, r) = (if at_heading_end b r then [[]] else [])"
  by (auto simp: heading_end_def ahead_def alt_def seq_bol seq_lit eos_def at_heading_end_def lit_def)

lemma tl_prefixes_nonempty: "y \<in> set (tl (prefixes r)) \<longleftrightarrow> prefix y r \<and> y \<noteq> []"
  by (cases r; cases y) (auto simp: image_iff)

lemma body_matcher:
  "seq (plus_lazy any_char) heading_end (b, r) =
     filter (\<lambda>y. at_heading_end (last y = 10) (drop (length y) r)) (tl (prefixes r))"
proof -
  have "concat (map (\<lambda>x. map ((@) x) (heading_end (after (b, r) x))) ys) =
        filter (\<lambda>y. at_heading_end (last y = 10) (drop (length y) r)) ys"
    if "[] \<notin> set ys" for ys
    using that by (induction ys) (auto simp: after_def heading_end_eq)
  moreover have "[] \<notin> set (tl (prefixes r))" by (simp add: tl_prefixes_nonempty)
  ultimately show ?thesis by (simp add: seq_def plus_lazy_def)
qed

lemma filter_tl_prefixes:
  "filter Q (tl (prefixes r)) = filter (\<lambda>y. y \<noteq> [] \<and> Q y) (prefixes r)"
proof -
  have p: "prefixes r = [] # tl (prefixes r)" by (cases r) auto
  have "filter (\<lambda>y. y \<noteq> [] \<and> Q y) (prefixes r) = filter (\<lambda>y. y \<noteq> [] \<and> Q y) (tl (prefixes r))"
    by (subst p) simp
  also have "\<dots> = filter Q (tl (prefixes r))"
    by (rule filter_cong) (auto simp: tl_prefixes_nonempty)
  finally show ?thesis by simp
qed

lemma filter_tl_prefixes_ConsD:
  assumes "filter Q (tl (prefixes r)) = y # ys"
  shows "prefix y r \<and> y \<noteq> [] \<and> Q y \<and> (\<forall>y'. strict_prefix y' y \<and> y' \<noteq> [] \<longrightarrow> \<not> Q y')"
  using filter_prefixes_ConsD [of "\<lambda>y. y \<noteq> [] \<and> Q y" r y ys] assms
  by (auto simp: filter_tl_prefixes)

lemma filter_tl_prefixes_ConsI:
  assumes "prefix y r" "y \<noteq> []" "Q y" "\<And>y'. strict_prefix y' y \<Longrightarrow> y' \<noteq> [] \<Longrightarrow> \<not> Q y'"
  shows "\<exists>ys. filter Q (tl (prefixes r)) = y # ys"
  using filter_prefixes_ConsI [of y r "\<lambda>y. y \<noteq> [] \<and> Q y"] assms
  by (auto simp: filter_tl_prefixes)

lemma heading_matcher:
  "seq bol (seq (lit h) (star is_space)) (b, r) =
     (if b \<and> prefix h r
      then map ((@) h) (rev (prefixes (takeWhile is_space (drop (length h) r)))) else [])"
  by (simp add: seq_bol seq_lit star_def)

lemma starts_line_iff: "starts_line w b s \<longleftrightarrow> (\<exists>p r. s = p @ w @ r \<and> bol_after b p)"
proof (induction s arbitrary: b)
  case Nil
  then show ?case by auto
next
  case (Cons c cs)
  have "(\<exists>p r. c # cs = p @ w @ r \<and> bol_after b p) \<longleftrightarrow>
        (b \<and> prefix w (c # cs)) \<or> (\<exists>p r. cs = p @ w @ r \<and> bol_after (c = 10) p)"
  proof
    assume "\<exists>p r. c # cs = p @ w @ r \<and> bol_after b p"
    then obtain p r where e: "c # cs = p @ w @ r" and b: "bol_after b p" by blast
    show "(b \<and> prefix w (c # cs)) \<or> (\<exists>p r. cs = p @ w @ r \<and> bol_after (c = 10) p)"
    proof (cases p)
      case Nil
      with e b show ?thesis by (auto simp: prefix_def)
    next
      case (Cons d ds)
      with e b have "cs = ds @ w @ r \<and> bol_after (c = 10) ds" by auto
      then show ?thesis by blast
    qed
  next
    assume "(b \<and> prefix w (c # cs)) \<or> (\<exists>p r. cs = p @ w @ r \<and> bol_after (c = 10) p)"
    then show "\<exists>p r. c # cs = p @ w @ r \<and> bol_after b p"
    proof
      assume "b \<and> prefix w (c # cs)"
      then obtain r where "c # cs = [] @ w @ r" "bol_after b []" by (auto simp: prefix_def)
      then show ?thesis by blast
    next
      assume "\<exists>p r. cs = p @ w @ r \<and> bol_after (c = 10) p"
      then obtain p r where "c # cs = (c # p) @ w @ r" "bol_after b (c # p)" by auto
      then show ?thesis by blast
    qed
  qed
  with Cons.IH [of "c = 10"] show ?case by simp
qed

lemma after_append: "after (after p x) y = after p (x @ y)"
  by (cases p) (auto simp: after_def add.commute)

lemma seq_assoc: "seq (seq a b) c p = seq a (seq b c) p"
proof -
  have 1: "concat (map (\<lambda>z. map ((@) z) (c (after p z))) (map ((@) x) ys)) =
           map ((@) x) (concat (map (\<lambda>y. map ((@) y) (c (after (after p x) y))) ys))" for x ys
    by (induction ys) (simp_all add: after_append)
  have 2: "concat (map (\<lambda>z. map ((@) z) (c (after p z))) (concat (map (\<lambda>x. map ((@) x) (b (after p x))) xs))) =
           concat (map (\<lambda>x. map ((@) x) (concat (map (\<lambda>y. map ((@) y) (c (after (after p x) y))) (b (after p x))))) xs)" for xs
    by (induction xs) (simp_all add: 1 del: map_map)
  show ?thesis by (simp add: seq_def 2)
qed

lemma seq2_seq: "map (\<lambda>(x, y). x @ y) (seq2 a b p) = seq a b p"
  by (simp add: seq2_def seq_def map_concat o_def)

lemma category_section: "category_pattern t p = map (\<lambda>(x, y). x @ y) (section_pattern t p)"
proof -
  have "category_pattern t p = seq (seq bol (seq (lit (U ''## '' @ t)) (star is_space))) (seq (plus_lazy any_char) heading_end) p"
    by (simp add: category_pattern_def seq_assoc seq_bol seq_lit)
  then show ?thesis by (simp add: seq2_seq section_pattern_def)
qed

lemma section_pattern_eq:
  "section_pattern t (b, r) =
     (if b \<and> prefix (U ''## '' @ t) r
      then concat (map (\<lambda>x. map (Pair x)
              (filter (\<lambda>y. at_heading_end (last y = 10) (drop (length y) (drop (length x) r)))
                 (tl (prefixes (drop (length x) r)))))
             (map ((@) (U ''## '' @ t)) (rev (prefixes (takeWhile is_space (drop (length (U ''## '' @ t)) r))))))
      else [])"
  unfolding section_pattern_def seq2_def heading_matcher after_pair body_matcher by auto

lemma section_pattern_Nil: "\<not> (b \<and> prefix (U ''## '' @ t) r) \<Longrightarrow> section_pattern t (b, r) = []"
  by (simp only: section_pattern_eq if_False)

lemma hd_rev_prefixes: "rev (prefixes ws) = ws # tl (rev (prefixes ws))"
  by (induction ws rule: rev_induct) auto

lemma section_pattern_first:
  assumes "b" "r = (U ''## '' @ t) @ ws @ body @ rest" "list_all is_space ws" "body \<noteq> []"
    "\<not> is_space (hd body)" "\<not> starts_line (U ''## '') False (body @ take 2 rest)"
    "rest = [] \<or> (last body = 10 \<and> prefix (U ''## '') rest)"
  shows "\<exists>xs. section_pattern t (b, r) = ((U ''## '' @ t) @ ws, body) # xs"
proof -
  let ?H = "U ''## '' @ t"
  let ?Q = "\<lambda>y. at_heading_end (last y = 10) (drop (length y) (body @ rest))"
  let ?F = "\<lambda>x. map (Pair x)
              (filter (\<lambda>y. at_heading_end (last y = 10) (drop (length y) (drop (length x) r)))
                 (tl (prefixes (drop (length x) r))))"
  have l: "length (U ''## '') = 3" by (simp add: U_def)
  have d: "drop (length ?H) r = ws @ body @ rest" using assms(2) by simp
  have d2: "drop (length (?H @ ws)) r = body @ rest" using assms(2) by simp
  have tw: "takeWhile is_space (ws @ body @ rest) = ws"
    using assms(3,4,5) by (cases body) (auto simp: list_all_iff)
  have q: "?Q body" using assms(7) by (auto simp: at_heading_end_def)
  have nq: "\<not> ?Q y'" if "strict_prefix y' body" "y' \<noteq> []" for y'
  proof
    assume a: "?Q y'"
    from that(1) have len: "length y' < length body" by (rule prefix_length_less)
    from that(1) obtain z where z: "body = y' @ z" "z \<noteq> []" by (auto simp: strict_prefix_def prefix_def)
    with a have "last y' = 10" and p: "prefix (U ''## '') (z @ rest)" by (auto simp: at_heading_end_def)
    from p obtain r' where r': "z @ rest = U ''## '' @ r'" by (auto simp: prefix_def)
    have "body @ take 2 rest = take (length body + 2) (y' @ U ''## '' @ r')"
      using z r' by (metis append.assoc append_eq_conv_conj take_add)
    also have "\<dots> = y' @ U ''## '' @ take (length body + 2 - length y' - 3) r'"
      using len l by simp
    finally have "starts_line (U ''## '') False (body @ take 2 rest)"
      unfolding starts_line_iff using \<open>last y' = 10\<close> that(2) by (auto simp: bol_after_def)
    with assms(6) show False by simp
  qed
  have "prefix body (body @ rest)" by simp
  from filter_tl_prefixes_ConsI [of body "body @ rest" ?Q, OF this assms(4) q nq]
  obtain ys where ys: "filter ?Q (tl (prefixes (body @ rest))) = body # ys" by blast
  have f: "?F (?H @ ws) = (?H @ ws, body) # map (Pair (?H @ ws)) ys"
    unfolding d2 ys by simp
  have "prefix ?H r" using assms(2) by simp
  with assms(1) have "section_pattern t (b, r) = concat (map ?F (map ((@) ?H) (rev (prefixes ws))))"
    by (simp only: section_pattern_eq d tw simp_thms if_True)
  also have "\<dots> = concat (map ?F (map ((@) ?H) (ws # tl (rev (prefixes ws)))))"
    by (subst hd_rev_prefixes) (rule refl)
  also have "\<dots> = ?F (?H @ ws) @ concat (map ?F (map ((@) ?H) (tl (rev (prefixes ws)))))"
    by (simp only: list.map concat.simps)
  finally show ?thesis unfolding f by simp
qed

lemma section_search_None:
  assumes "\<not> starts_line (U ''## '' @ t) True region"
  shows "search (section_pattern t) True region = None"
  unfolding search_None_iff
proof (intro allI impI)
  fix pre suf
  assume e: "region = pre @ suf"
  have "\<not> (bol_after True pre \<and> prefix (U ''## '' @ t) suf)"
    using assms e unfolding starts_line_iff by (auto simp: prefix_def)
  then show "section_pattern t (bol_after True pre, suf) = []" by (rule section_pattern_Nil)
qed

lemma take_butlast: "h \<noteq> [] \<Longrightarrow> take (length p + length h - 1) (p @ h @ r) = p @ butlast h"
  by (cases h rule: rev_cases) auto

lemma section_located:
  assumes "section_at region t pre ws body rest"
  shows "search (section_pattern t) True region = Some (pre, (U ''## '' @ t) @ ws, body)"
proof -
  let ?H = "U ''## '' @ t"
  from assms have e: "region = pre @ ?H @ ws @ body @ rest" and b: "bol_after True pre"
    and n: "\<not> starts_line ?H True (pre @ butlast ?H)"
    and rest: "list_all is_space ws" "body \<noteq> []" "\<not> is_space (hd body)"
      "\<not> starts_line (U ''## '') False (body @ take 2 rest)"
      "rest = [] \<or> (last body = 10 \<and> prefix (U ''## '') rest)"
    by (simp_all add: section_at_def)
  have "?H @ ws @ body @ rest = ?H @ ws @ body @ rest" ..
  from section_pattern_first [OF b _ rest, of "?H @ ws @ body @ rest" t]
  obtain xs where x: "section_pattern t (bol_after True pre, ?H @ ws @ body @ rest) = (?H @ ws, body) # xs"
    by auto
  show ?thesis
  proof (rule search_SomeI [where m = "section_pattern t" and b = True and pre = pre
        and suf = "?H @ ws @ body @ rest" and xs = xs, OF e x])
    fix pre' suf'
    assume e': "region = pre' @ suf'" and len: "length pre' < length pre"
    have "\<not> (bol_after True pre' \<and> prefix ?H suf')"
    proof
      assume a: "bol_after True pre' \<and> prefix ?H suf'"
      then obtain r' where r': "suf' = ?H @ r'" by (auto simp: prefix_def)
      have hn: "?H \<noteq> []" by (simp add: U_def)
      have "pre @ butlast ?H = take (length pre + length ?H - 1) region"
        unfolding e using take_butlast [OF hn, of pre "ws @ body @ rest"] by simp
      also have "\<dots> = pre' @ ?H @ take (length pre + length ?H - 1 - length pre' - length ?H) r'"
        using e' r' len by simp
      finally have "starts_line ?H True (pre @ butlast ?H)"
        unfolding starts_line_iff using a by blast
      with n show False by simp
    qed
    then show "section_pattern t (bol_after True pre', suf') = []" by (rule section_pattern_Nil)
  qed
qed

lemma search_map:
  "search (\<lambda>p. map f (m p)) b s = map_option (\<lambda>(pre, x). (pre, f x)) (search m b s)"
  by (induction s arbitrary: b) (auto split: list.splits option.splits)

lemma category_located:
  assumes "section_at region t pre ws body rest"
  shows "search (category_pattern t) True region = Some (pre, (U ''## '' @ t) @ ws @ body)"
proof -
  have "category_pattern t = (\<lambda>p. map (\<lambda>(x, y). x @ y) (section_pattern t p))"
    by (rule ext) (rule category_section)
  then show ?thesis using section_located [OF assms] by (simp add: search_map)
qed

lemma upsert_present:
  assumes "section_at region t pre ws body rest"
  shows "upsert_category_block region t = region"
  using category_located [OF assms] by (simp add: upsert_category_block_def)

lemma contains_sublist: "contains w s \<longleftrightarrow> sublist w s"
  by (induction s) (auto simp: sublist_Cons_right)

lemma replace_loop_skip: "replace_loop old new (length xs) (xs @ ys) = replace_loop old new 0 ys"
  by (induction xs) auto

lemma replace_loop_absent: "\<not> sublist old s \<Longrightarrow> replace_loop old new 0 s = s"
  by (induction s) (auto simp: sublist_Cons_right)

lemma replace_str_once:
  assumes "old \<noteq> []" "\<not> sublist old (a @ butlast old)" "\<not> sublist old b"
  shows "replace_str (a @ old @ b) old new = a @ new @ b"
  using assms(2)
proof (induction a)
  case Nil
  obtain c cs where old: "old = c # cs" using assms(1) by (cases old) auto
  have "replace_loop old new 0 (old @ b) = new @ replace_loop old new (length cs) (cs @ b)"
    by (simp add: old)
  then show ?case by (simp add: replace_str_def replace_loop_skip replace_loop_absent assms(3))
next
  case (Cons x a)
  have "\<not> prefix old (x # a @ old @ b)"
  proof
    assume "prefix old (x # a @ old @ b)"
    then have "prefix old (drop 0 ((x # a) @ old @ b))" by simp
    then have "sublist old ((x # a) @ butlast old)" by (rule occurs_early) simp
    with Cons.prems show False by simp
  qed
  moreover from Cons.prems have "\<not> sublist old (a @ butlast old)" by (simp add: sublist_Cons_right)
  ultimately show ?case using Cons.IH by (simp add: replace_str_def)
qed

lemma add_problem_checkbox_section:
  assumes "section_at region t pre ws body rest"
  shows "add_problem_checkbox region t name link path done =
     Inr (pre @ (U ''## '' @ t) @ ws @
       (if sublist placeholder body
        then replace_str body placeholder (entry_line done name link path)
        else if sublist (U ''['' @ name @ U '']('') body
        then (if done
              then sub_loop (entry_pattern name) (\<lambda>x. x)
                     (\<lambda>x. replace_str x (U ''[ ]'') (U ''[x]'')) 0 True body
              else body)
        else rstrip body @ [10] @ entry_line done name link path @ [10]) @ rest)"
proof -
  from assms have e: "region = pre @ (U ''## '' @ t) @ ws @ body @ rest" by (simp add: section_at_def)
  have d: "drop (length pre + length ((U ''## '' @ t) @ ws) + length body) region = rest"
    unfolding e by simp
  show ?thesis
    using section_located [OF assms] d
    by (simp add: add_problem_checkbox_def Let_def contains_sublist)
qed


section \<open>Substitution\<close>

lemma parse_template_literal:
  "92 \<notin> set xs \<Longrightarrow>
     parse_template g (xs @ ys) =
       (case parse_template g ys of Inl e \<Rightarrow> Inl e | Inr t \<Rightarrow> Inr (map (\<lambda>c. TLit [c]) xs @ t))"
  by (induction xs) (auto simp: add_item_def split: sum.splits)

lemma expand_template_append:
  "expand_template (s @ t) gs = expand_template s gs @ expand_template t gs"
  by (simp add: expand_template_def)

lemma expand_template_Cons:
  "expand_template (i # t) gs = expand_item gs i @ expand_template t gs"
  by (simp add: expand_template_def)

lemma expand_template_literal: "expand_template (map (\<lambda>c. TLit [c]) xs) gs = xs"
  by (induction xs) (simp_all add: expand_template_def)

lemma sub_loop_skip:
  "sub_loop m w r (length xs) b (xs @ ys) = sub_loop m w r 0 (bol_after b xs) ys"
  by (induction xs arbitrary: b) auto

lemma sub_loop_no_match:
  "(\<And>pre suf. s = pre @ suf \<Longrightarrow> suf \<noteq> [] \<Longrightarrow> m (bol_after b pre, suf) = []) \<Longrightarrow>
     sub_loop m w r 0 b s = s"
proof (induction s arbitrary: b)
  case Nil
  then show ?case by simp
next
  case (Cons c cs)
  have 1: "m (b, c # cs) = []" using Cons.prems [of "[]" "c # cs"] by simp
  have "sub_loop m w r 0 (c = 10) cs = cs"
  proof (rule Cons.IH)
    fix pre suf
    assume "cs = pre @ suf" "suf \<noteq> []"
    then show "m (bol_after (c = 10) pre, suf) = []" using Cons.prems [of "c # pre" suf] by simp
  qed
  with 1 show ?case by simp
qed

lemma sub_loop_one:
  assumes "m (bol_after b pre, w x @ post) = x # xs" "w x \<noteq> []"
    "\<And>pre' suf'. pre @ w x @ post = pre' @ suf' \<Longrightarrow> length pre' < length pre \<Longrightarrow> m (bol_after b pre', suf') = []"
    "\<And>pre' suf'. post = pre' @ suf' \<Longrightarrow> suf' \<noteq> [] \<Longrightarrow> m (bol_after b (pre @ w x @ pre'), suf') = []"
  shows "sub_loop m w r 0 b (pre @ w x @ post) = pre @ r x @ post"
  using assms
proof (induction pre arbitrary: b)
  case Nil
  obtain c cs where c: "w x = c # cs" using Nil.prems(2) by (cases "w x") auto
  have "sub_loop m w r 0 b (w x @ post) = r x @ sub_loop m w r (length cs) (c = 10) (cs @ post)"
    using Nil.prems(1) by (simp add: c)
  also have "sub_loop m w r (length cs) (c = 10) (cs @ post) = sub_loop m w r 0 (bol_after (c = 10) cs) post"
    by (rule sub_loop_skip)
  also have "\<dots> = post"
  proof (rule sub_loop_no_match)
    fix pre suf
    assume "post = pre @ suf" "suf \<noteq> []"
    from Nil.prems(4) [OF this] show "m (bol_after (bol_after (c = 10) cs) pre, suf) = []"
      by (simp add: c)
  qed
  finally show ?case by simp
next
  case (Cons d pre)
  have 1: "m (b, d # pre @ w x @ post) = []" using Cons.prems(3) [of "[]" "d # pre @ w x @ post"] by simp
  have "sub_loop m w r 0 (d = 10) (pre @ w x @ post) = pre @ r x @ post"
  proof (rule Cons.IH)
    show "m (bol_after (d = 10) pre, w x @ post) = x # xs" using Cons.prems(1) by simp
    show "w x \<noteq> []" by fact
  next
    fix pre' suf'
    assume "pre @ w x @ post = pre' @ suf'" "length pre' < length pre"
    then show "m (bol_after (d = 10) pre', suf') = []" using Cons.prems(3) [of "d # pre'" suf'] by simp
  next
    fix pre' suf'
    assume "post = pre' @ suf'" "suf' \<noteq> []"
    from Cons.prems(4) [OF this] show "m (bol_after (d = 10) (pre @ w x @ pre'), suf') = []" by simp
  qed
  with 1 show ?case by simp
qed

lemma no_backslash_START: "92 \<notin> set PROGRESS_START"
  by (simp add: PROGRESS_START_def U_def)

lemma no_backslash_END: "92 \<notin> set PROGRESS_END"
  by (simp add: PROGRESS_END_def U_def)

lemma not_sublist_butlast: "w \<noteq> [] \<Longrightarrow> \<not> sublist w (butlast w)"
  using sublist_length_le [of w "butlast w"] by (auto simp: length_greater_0_conv [symmetric] simp del: length_greater_0_conv)

lemma markers_found:
  "search progress_pattern True (PROGRESS_START @ PROGRESS_END) = Some ([], PROGRESS_START, [], PROGRESS_END)"
proof (rule extract_present [where post = "[]"])
  show "PROGRESS_START @ PROGRESS_END = [] @ PROGRESS_START @ [] @ PROGRESS_END @ []" by simp
  have "PROGRESS_START \<noteq> []" by (simp add: PROGRESS_START_def U_def)
  then show "\<not> sublist PROGRESS_START ([] @ butlast PROGRESS_START)"
    using not_sublist_butlast by simp
  have "PROGRESS_END \<noteq> []" by (simp add: PROGRESS_END_def U_def)
  then show "\<not> sublist PROGRESS_END ([] @ butlast PROGRESS_END)"
    using not_sublist_butlast by simp
qed


lemma parse_template_literal_all:
  "92 \<notin> set xs \<Longrightarrow> parse_template g xs = Inr (map (\<lambda>c. TLit [c]) xs)"
  using parse_template_literal [of xs g "[]"] by simp

lemma sub_markers:
  "sub_loop progress_pattern (\<lambda>x. hd ((\<lambda>(s, inner, e). [s @ inner @ e, inner]) x)) r 0 True
     (PROGRESS_START @ PROGRESS_END) = r (PROGRESS_START, [], PROGRESS_END)"
proof -
  let ?w = "\<lambda>x. hd ((\<lambda>(s, inner, e). [s @ inner @ e, inner]) x)"
  let ?x = "(PROGRESS_START, [], PROGRESS_END)"
  have w: "?w ?x = PROGRESS_START @ PROGRESS_END" by simp
  from search_SomeD [OF markers_found] obtain xs where
    m: "progress_pattern (True, PROGRESS_START @ PROGRESS_END) = ?x # xs" by auto
  have n: "PROGRESS_START @ PROGRESS_END \<noteq> []" by (simp add: PROGRESS_START_def U_def)
  have "sub_loop progress_pattern ?w r 0 True ([] @ ?w ?x @ []) = [] @ r ?x @ []"
  proof (rule sub_loop_one [where xs = xs])
    show "progress_pattern (bol_after True [], ?w ?x @ []) = ?x # xs" using m by simp
    show "?w ?x \<noteq> []" using n by simp
  qed simp_all
  then show ?thesis by simp
qed

section \<open>Entry lines\<close>

lemma seq_plus_lit_Nil:
  assumes "\<not> prefix L (dropWhile P (snd p))" "L \<noteq> []" "\<not> P (hd L)"
  shows "seq (plus P) (seq (lit L) m) p = []"
proof -
  have "seq (lit L) m (after p x) = []" if x: "x \<in> set (tl (prefixes (takeWhile P (snd p))))" for x
  proof -
    from x have px: "prefix x (takeWhile P (snd p))" and xn: "x \<noteq> []"
      by (simp_all add: tl_prefixes_nonempty)
    have "\<not> prefix L (drop (length x) (snd p))"
    proof (cases "x = takeWhile P (snd p)")
      case True
      then have "drop (length x) (snd p) = dropWhile P (snd p)"
        by (simp add: dropWhile_eq_drop)
      with assms(1) show ?thesis by simp
    next
      case False
      with px obtain z zs where z: "takeWhile P (snd p) = x @ z # zs"
        by (cases "drop (length x) (takeWhile P (snd p))") (auto simp: prefix_def)
      then have "z \<in> set (takeWhile P (snd p))" by simp
      then have "P z" by (rule set_takeWhileD [THEN conjunct2])
      have "snd p = takeWhile P (snd p) @ dropWhile P (snd p)" by simp
      then have "snd p = x @ z # zs @ dropWhile P (snd p)" using z by simp
      then have "drop (length x) (snd p) = z # zs @ dropWhile P (snd p)"
        by (metis append_eq_conv_conj)
      with \<open>P z\<close> assms(2,3) show ?thesis by (cases L) auto
    qed
    then show ?thesis by (simp add: seq_lit)
  qed
  then show ?thesis by (simp add: seq_def plus_def)
qed

lemma entry_pattern_Nil:
  assumes "\<not> (b \<and> prefix (U ''- [ ] ['' @ name @ U '']('') r \<and>
      prefix [41, 32, 8212, 32, 96]
        (dropWhile (\<lambda>c. c \<noteq> 41) (drop (length (U ''- [ ] ['' @ name @ U '']('')) r)))"
  shows "entry_pattern name (b, r) = []"
proof (cases "b \<and> prefix (U ''- [ ] ['' @ name @ U '']('') r")
  case False
  then show ?thesis by (auto simp: entry_pattern_def seq_bol seq_lit)
next
  case True
  with assms have "\<not> prefix [41, 32, 8212, 32, 96]
        (dropWhile (\<lambda>c. c \<noteq> 41) (snd (after (b, r) (U ''- [ ] ['' @ name @ U ''](''))))"
    by simp
  then have "seq (plus (\<lambda>c. c \<noteq> 41)) (seq (lit [41, 32, 8212, 32, 96]) m)
      (after (b, r) (U ''- [ ] ['' @ name @ U '']('')) = []" for m
    by (rule seq_plus_lit_Nil) simp_all
  then show ?thesis using True by (simp add: entry_pattern_def seq_bol seq_lit)
qed

lemma replace_placeholder_first:
  "\<not> sublist placeholder b \<Longrightarrow> replace_str (placeholder @ b) placeholder new = new @ b"
  using replace_str_once [of placeholder "[]" b new] not_sublist_butlast [of placeholder]
  by (simp add: placeholder_def U_def)

section \<open>Lines marked done\<close>


lemma lines_of_nonempty [simp]: "lines_of s \<noteq> []"
  by (induction s) auto

lemma hd_lines_of: "hd (lines_of s) = takeWhile (\<lambda>c. c \<noteq> 10) s"
  by (induction s) auto

lemma lines_of_Cons:
  "lines_of (c # cs) =
     (if c = 10 then [] # lines_of cs else (case lines_of cs of l # ls \<Rightarrow> (c # l) # ls))"
  by (cases "lines_of cs") simp_all

lemma prefix_takeWhile: "\<forall>x\<in>set w. P x \<Longrightarrow> prefix w (takeWhile P s) \<longleftrightarrow> prefix w s"
proof (induction s arbitrary: w)
  case Nil
  then show ?case by simp
next
  case (Cons c cs)
  then show ?case by (cases w) auto
qed

lemma done_pattern_eq: "done_pattern (b, r) = (if b \<and> prefix (U ''- [x]'') r then [U ''- [x]''] else [])"
  by (simp add: done_pattern_def seq_bol lit_def)

lemma findall_done_lines:
  "10 \<notin> set (take k s) \<Longrightarrow>
     length (findall_loop done_pattern k b s) =
     length (filter (prefix (U ''- [x]'')) (if k = 0 \<and> b then lines_of s else tl (lines_of s)))"
proof (induction s arbitrary: k b)
  case Nil
  then show ?case by (cases k) (simp_all add: U_def)
next
  case (Cons c cs)
  have nl: "\<forall>x\<in>set (U ''- [x]''). x \<noteq> 10" by (simp add: U_def)
  have ph: "prefix (U ''- [x]'') (c # hd (lines_of cs)) \<longleftrightarrow> prefix (U ''- [x]'') (c # cs)" if "c \<noteq> 10"
    using prefix_takeWhile [OF nl, of "c # cs"] that by (simp add: hd_lines_of)
  show ?case
  proof (cases k)
    case (Suc k')
    with Cons.prems have "c \<noteq> 10" "10 \<notin> set (take k' cs)" by auto
    with Cons.IH [of k' False] Suc show ?thesis by simp
  next
    case 0
    show ?thesis
    proof (cases "b \<and> prefix (U ''- [x]'') (c # cs)")
      case True
      then obtain r where r: "c # cs = U ''- [x]'' @ r" by (auto simp: prefix_def)
      then have c: "c \<noteq> 10" and t: "10 \<notin> set (take 4 cs)" by (auto simp: U_def)
      have "length (U ''- [x]'') - 1 = 4" by (simp add: U_def)
      with True 0 Cons.IH [OF t, of False] ph [OF c] c show ?thesis
        by (simp add: done_pattern_eq)
    next
      case False
      have dn: "\<not> prefix (U ''- [x]'') []" by (simp add: U_def)
      from False 0 Cons.IH [of 0 "c = 10"] show ?thesis
        by (cases "c = 10") (auto simp: done_pattern_eq ph dn)
    qed
  qed
qed

lemma findall_done: "length (findall done_pattern s) = done_lines s"
  using findall_done_lines [of 0 s True] by (simp add: findall_def done_lines_def)

section \<open>The summary line\<close>

lemma seq_first:
  assumes "a p = x # xs" "m (after p x) = y # ys"
  shows "\<exists>zs. seq a m p = (x @ y) # zs"
  using assms by (simp add: seq_def)

lemma plus_first:
  assumes "takeWhile P (snd p) = x" "x \<noteq> []"
  shows "\<exists>xs. plus P p = x # xs"
proof -
  from assms(2) obtain ys y where x: "x = ys @ [y]" by (cases x rule: rev_cases) auto
  have "prefixes ys \<noteq> []" by (cases ys) auto
  then have "tl (prefixes ys @ [x]) = tl (prefixes ys) @ [x]" by simp
  then show ?thesis using assms(1) by (simp add: plus_def x)
qed

lemma takeWhile_run:
  assumes "list_all P x" "r = [] \<or> \<not> P (hd r)"
  shows "takeWhile P (x @ r) = x"
  using assms by (cases r) (auto simp: list_all_iff)

lemma summary_tail_first:
  assumes "d \<noteq> []" "list_all is_decimal d" "p \<noteq> []" "list_all is_decimal p" "post = [] \<or> hd post = 10"
  shows "\<exists>xs. seq (plus is_decimal) (seq (lit (U '' done / '')) (seq (plus is_decimal)
             (seq (lit (U '' planned'')) eol))) (b, d @ U '' done / '' @ p @ U '' planned'' @ post)
          = (d @ U '' done / '' @ p @ U '' planned'') # xs"
proof -
  let ?D = "U '' done / ''" and ?P = "U '' planned''"
  have nd: "\<not> is_decimal 32" by (simp add: is_decimal_def decimal_ranges_def)
  have hD: "hd (?D @ r) = 32" and hP: "hd (?P @ r) = 32" for r by (simp_all add: U_def)
  have 4: "eol (bol_after b0 ?P, post) = [[]]" for b0
    using assms(5) by (cases post) (auto simp: eol_def)
  have 3: "seq (lit ?P) eol (b0, ?P @ post) = [?P]" for b0
    by (simp add: seq_lit after_pair 4)
  have tp: "takeWhile is_decimal (p @ ?P @ post) = p"
    by (rule takeWhile_run [OF assms(4)]) (simp add: hP nd)
  obtain x2 where 2: "seq (plus is_decimal) (seq (lit ?P) eol) (b0, p @ ?P @ post) = (p @ ?P) # x2 b0" for b0
  proof -
    have "\<exists>zs. seq (plus is_decimal) (seq (lit ?P) eol) (b0, p @ ?P @ post) = (p @ ?P) # zs" for b0
    proof -
      obtain xs where "plus is_decimal (b0, p @ ?P @ post) = p # xs"
        using plus_first [of is_decimal "(b0, p @ ?P @ post)" p] tp assms(3) by auto
      then show ?thesis by (rule seq_first) (simp add: after_pair 3)
    qed
    then show ?thesis using that by metis
  qed
  have 1: "seq (lit ?D) (seq (plus is_decimal) (seq (lit ?P) eol)) (b0, ?D @ p @ ?P @ post)
      = (?D @ p @ ?P) # map ((@) ?D) (x2 (bol_after b0 ?D))" for b0
    by (simp add: seq_lit after_pair 2)
  have td: "takeWhile is_decimal (d @ ?D @ p @ ?P @ post) = d"
    by (rule takeWhile_run [OF assms(2)]) (simp add: hD nd)
  obtain xs where "plus is_decimal (b, d @ ?D @ p @ ?P @ post) = d # xs"
    using plus_first [of is_decimal "(b, d @ ?D @ p @ ?P @ post)" d] td assms(1) by auto
  then show ?thesis by (rule seq_first) (simp add: after_pair 1)
qed

lemma summary_head_first:
  assumes "b" "list_all is_space ws"
  shows "\<exists>xs. seq bol (seq (lit (U ''## Progress Summary'')) (seq (star is_space)
             (lit ([10] @ U ''- Total: '')))) (b, U ''## Progress Summary'' @ ws @ ([10] @ U ''- Total: '') @ r)
          = (U ''## Progress Summary'' @ ws @ [10] @ U ''- Total: '') # xs"
proof -
  let ?S = "U ''## Progress Summary''" and ?T = "[10] @ U ''- Total: ''"
  have tw: "takeWhile is_space (ws @ ?T @ r) = ws @ [10]"
    using takeWhile_run [of is_space "ws @ [10]" "U ''- Total: '' @ r"] assms(2)
    by (simp add: U_def is_space_def)
  have rp: "rev (prefixes (ws @ [10])) = (ws @ [10]) # ws # tl (rev (prefixes ws))"
    using hd_rev_prefixes [of ws] by simp
  have f: "lit ?T (after (b0, ws @ ?T @ r) (ws @ [10])) = []" for b0
    by (simp add: lit_def U_def)
  have g: "lit ?T (after (b0, ws @ ?T @ r) ws) = [?T]" for b0
    by (simp add: lit_def)
  have "seq (star is_space) (lit ?T) (b0, ws @ ?T @ r) =
      (ws @ ?T) # concat (map (\<lambda>x. map ((@) x) (lit ?T (after (b0, ws @ ?T @ r) x))) (tl (rev (prefixes ws))))" for b0
    unfolding seq_def star_def snd_conv tw rp list.map concat.simps f g by simp
  then show ?thesis using assms(1) by (simp add: seq_bol seq_lit after_pair)
qed

lemma summary_pattern_Nil:
  "\<not> (b \<and> prefix (U ''## Progress Summary'') r) \<Longrightarrow> summary_pattern (b, r) = []"
  by (auto simp: summary_pattern_def seq2_def seq_bol seq_lit)

lemma summary_pattern_first:
  assumes "b" "list_all is_space ws" "d \<noteq> []" "list_all is_decimal d" "p \<noteq> []" "list_all is_decimal p"
    "post = [] \<or> hd post = 10"
  shows "\<exists>xs. summary_pattern (b, (U ''## Progress Summary'' @ ws @ [10] @ U ''- Total: '')
                @ (d @ U '' done / '' @ p @ U '' planned'') @ post)
          = (U ''## Progress Summary'' @ ws @ [10] @ U ''- Total: '', d @ U '' done / '' @ p @ U '' planned'') # xs"
proof -
  let ?g1 = "U ''## Progress Summary'' @ ws @ [10] @ U ''- Total: ''"
  let ?r = "d @ U '' done / '' @ p @ U '' planned''"
  obtain xs where h: "seq bol (seq (lit (U ''## Progress Summary'')) (seq (star is_space)
             (lit ([10] @ U ''- Total: '')))) (b, ?g1 @ ?r @ post) = ?g1 # xs"
    using summary_head_first [OF assms(1,2), of "?r @ post"] by auto
  obtain ys where t: "seq (plus is_decimal) (seq (lit (U '' done / '')) (seq (plus is_decimal)
             (seq (lit (U '' planned'')) eol))) (bol_after b ?g1, ?r @ post) = ?r # ys"
    using summary_tail_first [OF assms(3-7), of "bol_after b ?g1"] by auto
  show ?thesis unfolding summary_pattern_def seq2_def
    using h t by (simp add: after_pair)
qed

lemma digits_of_ascii: "set (digits_of f n) \<subseteq> {48..57}"
  by (induction f arbitrary: n) auto

lemma str_of_nat_no_backslash: "92 \<notin> set (str_of_nat n)"
  using digits_of_ascii [of "Suc n" n] by (auto simp: str_of_nat_def)

lemma parse_group_1:
  "1 \<le> g \<Longrightarrow> parse_template g (92 # 103 # 60 # 49 # 62 # xs) = add_item (TGroup 1) (parse_template g xs)"
  by (simp add: number_of_def ascii_digit_def)

lemma summary_template:
  "parse_template 1 ([92] @ U ''g<1>'' @ str_of_nat n @ U '' done / 150 planned'') =
     Inr (TGroup 1 # map (\<lambda>c. TLit [c]) (str_of_nat n @ U '' done / 150 planned''))"
proof -
  have "92 \<notin> set (str_of_nat n @ U '' done / 150 planned'')"
    using str_of_nat_no_backslash by (simp add: U_def)
  then have "parse_template 1 (str_of_nat n @ U '' done / 150 planned'') =
      Inr (map (\<lambda>c. TLit [c]) (str_of_nat n @ U '' done / 150 planned''))"
    by (rule parse_template_literal_all)
  moreover have "[92] @ U ''g<1>'' @ str_of_nat n @ U '' done / 150 planned'' =
      92 # 103 # 60 # 49 # 62 # (str_of_nat n @ U '' done / 150 planned'')"
    by (simp add: U_def)
  ultimately show ?thesis by (simp only: parse_group_1 [OF order_refl] add_item_def sum.case)
qed

lemma number_of_snoc: "number_of base (ds @ [d]) = base * number_of base ds + (d - 48)"
  by (simp add: number_of_def)

lemma digits_of_value: "n < f \<Longrightarrow> number_of 10 (digits_of f n) = n"
proof (induction f arbitrary: n)
  case 0
  then show ?case by simp
next
  case (Suc f)
  show ?case
  proof (cases "n < 10")
    case True
    then show ?thesis by (simp add: number_of_def)
  next
    case False
    with Suc.prems have "n div 10 < f" by simp
    from Suc.IH [OF this] False show ?thesis by (simp add: number_of_snoc)
  qed
qed

lemma str_of_nat_value: "number_of 10 (str_of_nat n) = n"
  unfolding str_of_nat_def by (rule digits_of_value) simp

lemma str_of_nat_digit: "n < 10 \<Longrightarrow> str_of_nat n = [48 + n]"
  by (simp add: str_of_nat_def)

lemma extract_no_marker:
  assumes "60 \<notin> set readme"
  shows "extract_progress_block readme =
     PROGRESS_START @ [10] @ U ''## Arrays'' @ [10] @ placeholder @ [10, 10] @ PROGRESS_END"
proof -
  have "\<not> (\<exists>pre mid post. readme = pre @ PROGRESS_START @ mid @ PROGRESS_END @ post)"
  proof
    assume "\<exists>pre mid post. readme = pre @ PROGRESS_START @ mid @ PROGRESS_END @ post"
    then have "60 \<in> set readme" by (auto simp: PROGRESS_START_def U_def)
    with assms show False by simp
  qed
  then show ?thesis by (simp add: extract_progress_block_def extract_absent)
qed

lemma done_lines_default:
  "done_lines (PROGRESS_START @ [10] @ U ''## Arrays'' @ [10] @ placeholder @ [10, 10] @ PROGRESS_END) = 0"
  by (simp add: done_lines_def PROGRESS_START_def PROGRESS_END_def placeholder_def U_def lines_of_Cons
      del: lines_of.simps(2))

section \<open>Rewriting the body of a section\<close>













section \<open>Every summary line\<close>

lemma summary_here_Nil [simp]: "\<not> summary_here []"
  by (simp add: summary_here_def U_def)

lemma summary_lines_iff:
  "n \<in> set (summary_lines b s) \<longleftrightarrow>
     (\<exists>p r. s = p @ r \<and> length p = n \<and> bol_after b p \<and> summary_here r)"
proof (induction s arbitrary: b n)
  case Nil
  show ?case by simp
next
  case (Cons c cs)
  show ?case
  proof (cases n)
    case 0
    then show ?thesis by auto
  next
    case (Suc k)
    have "(\<exists>p r. c # cs = p @ r \<and> length p = Suc k \<and> bol_after b p \<and> summary_here r) \<longleftrightarrow>
          (\<exists>p r. cs = p @ r \<and> length p = k \<and> bol_after (c = 10) p \<and> summary_here r)"
    proof
      assume "\<exists>p r. c # cs = p @ r \<and> length p = Suc k \<and> bol_after b p \<and> summary_here r"
      then obtain p r where *: "c # cs = p @ r" "length p = Suc k" "bol_after b p" "summary_here r"
        by blast
      then obtain p' where "p = c # p'" by (cases p) auto
      with * have "cs = p' @ r \<and> length p' = k \<and> bol_after (c = 10) p' \<and> summary_here r" by auto
      then show "\<exists>p r. cs = p @ r \<and> length p = k \<and> bol_after (c = 10) p \<and> summary_here r" by blast
    next
      assume "\<exists>p r. cs = p @ r \<and> length p = k \<and> bol_after (c = 10) p \<and> summary_here r"
      then obtain p r where "cs = p @ r" "length p = k" "bol_after (c = 10) p" "summary_here r" by blast
      then have "c # cs = (c # p) @ r \<and> length (c # p) = Suc k \<and> bol_after b (c # p) \<and> summary_here r"
        by simp
      then show "\<exists>p r. c # cs = p @ r \<and> length p = Suc k \<and> bol_after b p \<and> summary_here r" by blast
    qed
    with Cons.IH [of k "c = 10"] Suc show ?thesis by auto
  qed
qed

lemma seq_Nil_iff: "seq a m p = [] \<longleftrightarrow> (\<forall>x\<in>set (a p). m (after p x) = [])"
  by (auto simp: seq_def)

lemma seq2_Nil_iff: "seq2 a m p = [] \<longleftrightarrow> (\<forall>x\<in>set (a p). m (after p x) = [])"
  by (auto simp: seq2_def)

lemma plus_lit_nonempty:
  assumes "x \<in> set (plus P p)" "seq (lit L) m (after p x) \<noteq> []" "L \<noteq> []" "\<not> P (hd L)"
  shows "x = takeWhile P (snd p) \<and> x \<noteq> [] \<and> prefix L (dropWhile P (snd p)) \<and>
         m (after p (x @ L)) \<noteq> []"
proof -
  from assms(1) have px: "prefix x (takeWhile P (snd p))" and xn: "x \<noteq> []"
    by (simp_all add: plus_def tl_prefixes_nonempty)
  from assms(2) have l: "prefix L (drop (length x) (snd p))" and m: "m (after (after p x) L) \<noteq> []"
    by (auto simp: seq_lit split: if_splits)
  have x: "x = takeWhile P (snd p)"
  proof (rule ccontr)
    assume "x \<noteq> takeWhile P (snd p)"
    with px obtain z zs where z: "takeWhile P (snd p) = x @ z # zs"
      by (cases "drop (length x) (takeWhile P (snd p))") (auto simp: prefix_def)
    then have "z \<in> set (takeWhile P (snd p))" by simp
    then have "P z" by (rule set_takeWhileD [THEN conjunct2])
    have "snd p = takeWhile P (snd p) @ dropWhile P (snd p)" by simp
    then have "snd p = x @ z # zs @ dropWhile P (snd p)" using z by simp
    then have "drop (length x) (snd p) = z # zs @ dropWhile P (snd p)"
      by (metis append_eq_conv_conj)
    with \<open>P z\<close> assms(3,4) l show False by (cases L) auto
  qed
  then have "drop (length x) (snd p) = dropWhile P (snd p)" by (simp add: dropWhile_eq_drop)
  with l m x xn show ?thesis by (simp add: after_append)
qed

lemma digits_then_match:
  assumes "seq (plus is_decimal) (seq (lit L) m) p \<noteq> []" "L \<noteq> []" "\<not> is_decimal (hd L)"
  shows "\<exists>t b'. digits_then L (snd p) = Some t \<and> m (b', t) \<noteq> []"
proof -
  from assms(1) obtain x where x: "x \<in> set (plus is_decimal p)" "seq (lit L) m (after p x) \<noteq> []"
    by (auto simp: seq_Nil_iff)
  from plus_lit_nonempty [OF x assms(2,3)]
  have *: "x = takeWhile is_decimal (snd p)" "x \<noteq> []" "prefix L (dropWhile is_decimal (snd p))"
    "m (after p (x @ L)) \<noteq> []" by auto
  have "snd (after p (x @ L)) = drop (length L) (dropWhile is_decimal (snd p))"
    using *(1) by (simp add: dropWhile_eq_drop add.commute)
  then have "after p (x @ L) = (fst (after p (x @ L)), drop (length L) (dropWhile is_decimal (snd p)))"
    by (metis prod.collapse)
  with * show ?thesis by (auto simp: digits_then_def)
qed

lemma star_newline_lit:
  assumes "x \<in> set (star is_space p)" "lit (10 # T) (after p x) \<noteq> []" "T \<noteq> []" "\<not> is_space (hd T)"
  shows "takeWhile is_space (snd p) = x @ [10] \<and> dropWhile is_space (snd p) = drop (Suc (length x)) (snd p)
         \<and> prefix T (drop (Suc (length x)) (snd p))"
proof -
  from assms(1) have px: "prefix x (takeWhile is_space (snd p))" by (simp add: star_def)
  have xs: "list_all is_space x"
    unfolding list_all_iff
  proof
    fix c assume "c \<in> set x"
    with px have "c \<in> set (takeWhile is_space (snd p))" by (auto simp: prefix_def)
    then show "is_space c" by (rule set_takeWhileD [THEN conjunct2])
  qed
  from assms(2) have "prefix (10 # T) (drop (length x) (snd p))"
    by (auto simp: lit_def split: if_splits)
  then obtain r where r: "drop (length x) (snd p) = 10 # T @ r" by (auto simp: prefix_def)
  have "prefix x (snd p)" using px takeWhile_is_prefix [of is_space "snd p"]
    by (auto simp: prefix_def)
  then have s: "snd p = x @ 10 # T @ r" using r by (metis prefix_drop)
  have sp: "is_space 10" by (simp add: is_space_def)
  have "takeWhile is_space ((x @ [10]) @ (T @ r)) = x @ [10]"
    by (rule takeWhile_run) (use xs sp assms(3,4) in \<open>auto\<close>)
  then have tw: "takeWhile is_space (snd p) = x @ [10]" by (simp add: s)
  then have "dropWhile is_space (snd p) = drop (Suc (length x)) (snd p)"
    by (simp add: dropWhile_eq_drop)
  with tw s show ?thesis by simp
qed

lemma eol_Nil_iff: "eol p \<noteq> [] \<longleftrightarrow> snd p = [] \<or> hd (snd p) = 10"
  by (cases "snd p") (auto simp: eol_def)

lemma summary_pattern_here:
  assumes "summary_pattern (b, r) \<noteq> []"
  shows "b \<and> summary_here r"
proof -
  let ?S = "U ''## Progress Summary''" and ?T = "U ''- Total: ''"
  let ?D = "U '' done / ''" and ?P = "U '' planned''"
  let ?B = "seq (plus is_decimal) (seq (lit ?D) (seq (plus is_decimal) (seq (lit ?P) eol)))"
  have nd: "?D \<noteq> []" "\<not> is_decimal (hd ?D)" "?P \<noteq> []" "\<not> is_decimal (hd ?P)"
    by (simp_all add: U_def is_decimal_def decimal_ranges_def)
  have nt: "?T \<noteq> []" "\<not> is_space (hd ?T)" by (simp_all add: U_def is_space_def)
  from assms obtain g where g: "g \<in> set (seq bol (seq (lit ?S) (seq (star is_space) (lit ([10] @ ?T)))) (b, r))"
    and B: "?B (after (b, r) g) \<noteq> []"
    by (auto simp: summary_pattern_def seq2_Nil_iff)
  from g have b: b and pS: "prefix ?S r"
    and g': "g \<in> (@) ?S ` set (seq (star is_space) (lit (10 # ?T)) (after (b, r) ?S))"
    by (auto simp: seq_bol seq_lit split: if_splits)
  let ?r1 = "drop (length ?S) r"
  let ?p1 = "after (b, r) ?S"
  have sp1: "snd ?p1 = ?r1" by simp
  from g' obtain x where x: "x \<in> set (star is_space ?p1)" "lit (10 # ?T) (after ?p1 x) \<noteq> []"
    and gx: "g = ?S @ x @ 10 # ?T"
    by (auto simp: seq_def lit_def split: if_splits)
  from star_newline_lit [OF x nt]
  have tw: "takeWhile is_space ?r1 = x @ [10]" and dw: "dropWhile is_space ?r1 = drop (Suc (length x)) ?r1"
    and pT: "prefix ?T (drop (Suc (length x)) ?r1)" by (simp_all only: sp1)
  have sg: "snd (after (b, r) g) = drop (length ?T) (dropWhile is_space ?r1)"
    unfolding dw gx by (simp add: ac_simps)
  from digits_then_match [OF B nd(1,2)] obtain t2 b2 where
    t2: "digits_then ?D (drop (length ?T) (dropWhile is_space ?r1)) = Some t2"
    and B2: "seq (plus is_decimal) (seq (lit ?P) eol) (b2, t2) \<noteq> []"
    unfolding sg by blast
  from digits_then_match [OF B2 nd(3,4)] obtain t4 b4 where
    t4: "digits_then ?P t2 = Some t4" and e: "eol (b4, t4) \<noteq> []"
    by auto
  from e have "t4 = [] \<or> hd t4 = 10" by (simp add: eol_Nil_iff)
  with b pS tw dw pT t2 t4 show ?thesis
    by (simp add: summary_here_def Let_def)
qed

text \<open>
  The pattern of the summary matches at a position exactly when a summary line starts there,
  in the sense of \<open>summary_here\<close>.
\<close>

lemma takeWhile_all: "list_all P (takeWhile P xs)"
  by (auto simp: list_all_iff dest: set_takeWhileD)

lemma digits_thenD:
  assumes "digits_then w r = Some t"
  shows "\<exists>d. r = d @ w @ t \<and> d \<noteq> [] \<and> list_all is_decimal d"
proof -
  from assms have d: "takeWhile is_decimal r \<noteq> []" and p: "prefix w (dropWhile is_decimal r)"
    and t: "t = drop (length w) (dropWhile is_decimal r)"
    by (auto simp: digits_then_def split: if_splits)
  from p t have "dropWhile is_decimal r = w @ t" by (auto simp: prefix_def)
  then have "r = takeWhile is_decimal r @ w @ t" by (metis takeWhile_dropWhile_id)
  with d takeWhile_all [of is_decimal r] show ?thesis by blast
qed

lemma summary_hereD:
  assumes "summary_here r"
  shows "\<exists>ws d p post. r = (U ''## Progress Summary'' @ ws @ [10] @ U ''- Total: '')
                @ (d @ U '' done / '' @ p @ U '' planned'') @ post \<and>
     list_all is_space ws \<and> d \<noteq> [] \<and> list_all is_decimal d \<and> p \<noteq> [] \<and> list_all is_decimal p \<and>
     (post = [] \<or> hd post = 10)"
proof -
  let ?S = "U ''## Progress Summary''" and ?T = "U ''- Total: ''"
  let ?r1 = "drop (length ?S) r"
  let ?w = "takeWhile is_space ?r1" and ?t = "dropWhile is_space ?r1"
  from assms have pS: "prefix ?S r" and w: "?w \<noteq> []" "last ?w = 10" and pT: "prefix ?T ?t"
    by (simp_all add: summary_here_def Let_def)
  from assms obtain t2 t4 where t2: "digits_then (U '' done / '') (drop (length ?T) ?t) = Some t2"
    and t4: "digits_then (U '' planned'') t2 = Some t4" and e: "t4 = [] \<or> hd t4 = 10"
    by (auto simp: summary_here_def Let_def split: option.splits)
  from digits_thenD [OF t2] obtain d where d: "drop (length ?T) ?t = d @ U '' done / '' @ t2"
    "d \<noteq> []" "list_all is_decimal d" by blast
  from digits_thenD [OF t4] obtain p where p: "t2 = p @ U '' planned'' @ t4"
    "p \<noteq> []" "list_all is_decimal p" by blast
  from w have ww: "?w = butlast ?w @ [10]" by (metis append_butlast_last_id)
  have "list_all is_space ?w" by (rule takeWhile_all)
  then have ws: "list_all is_space (butlast ?w)" by (auto simp: list_all_iff dest: in_set_butlastD)
  have "r = ?S @ ?r1" using pS by (rule prefix_drop)
  also have "?r1 = ?w @ ?t" by simp
  also have "?t = ?T @ drop (length ?T) ?t" using pT by (rule prefix_drop)
  finally have "r = ?S @ (butlast ?w @ [10]) @ ?T @ d @ U '' done / '' @ p @ U '' planned'' @ t4"
    using ww d(1) p(1) by simp
  then have "r = (?S @ butlast ?w @ [10] @ ?T) @ (d @ U '' done / '' @ p @ U '' planned'') @ t4"
    by simp
  with ws d(2,3) p(2,3) e show ?thesis by blast
qed

lemma summary_pattern_iff: "summary_pattern (b, r) \<noteq> [] \<longleftrightarrow> b \<and> summary_here r"
proof
  assume "summary_pattern (b, r) \<noteq> []"
  then show "b \<and> summary_here r" by (rule summary_pattern_here)
next
  assume a: "b \<and> summary_here r"
  then obtain ws d p post where r: "r = (U ''## Progress Summary'' @ ws @ [10] @ U ''- Total: '')
                @ (d @ U '' done / '' @ p @ U '' planned'') @ post"
    and c: "list_all is_space ws" "d \<noteq> []" "list_all is_decimal d" "p \<noteq> []" "list_all is_decimal p"
      "post = [] \<or> hd post = 10"
    using summary_hereD by blast
  from a have b by simp
  from summary_pattern_first [OF this c] show "summary_pattern (b, r) \<noteq> []"
    unfolding r by auto
qed

lemma sub_loop_first:
  assumes "m (bol_after b pre, w x @ post) = x # xs" "w x \<noteq> []"
    "\<And>pre' suf'. pre @ w x @ post = pre' @ suf' \<Longrightarrow> length pre' < length pre \<Longrightarrow> m (bol_after b pre', suf') = []"
  shows "sub_loop m w r 0 b (pre @ w x @ post) = pre @ r x @ sub_loop m w r 0 (bol_after b (pre @ w x)) post"
  using assms
proof (induction pre arbitrary: b)
  case Nil
  obtain c cs where c: "w x = c # cs" using Nil.prems(2) by (cases "w x") auto
  have "sub_loop m w r 0 b (w x @ post) = r x @ sub_loop m w r (length cs) (c = 10) (cs @ post)"
    using Nil.prems(1) by (simp add: c)
  also have "sub_loop m w r (length cs) (c = 10) (cs @ post) = sub_loop m w r 0 (bol_after (c = 10) cs) post"
    by (rule sub_loop_skip)
  finally show ?case by (simp add: c)
next
  case (Cons d pre)
  have 1: "m (b, d # pre @ w x @ post) = []" using Cons.prems(3) [of "[]" "d # pre @ w x @ post"] by simp
  have "sub_loop m w r 0 (d = 10) (pre @ w x @ post) =
      pre @ r x @ sub_loop m w r 0 (bol_after (d = 10) (pre @ w x)) post"
  proof (rule Cons.IH)
    show "m (bol_after (d = 10) pre, w x @ post) = x # xs" using Cons.prems(1) by simp
    show "w x \<noteq> []" by fact
  next
    fix pre' suf'
    assume "pre @ w x @ post = pre' @ suf'" "length pre' < length pre"
    then show "m (bol_after (d = 10) pre', suf') = []" using Cons.prems(3) [of "d # pre'" suf'] by simp
  qed
  with 1 show ?case by simp
qed

lemma summary_sub_first:
  assumes "summary_at readme pre ws d p post" "\<forall>n\<in>set (summary_lines True readme). length pre \<le> n"
  shows "sub_loop summary_pattern (\<lambda>x. hd ((\<lambda>(g1, r). [g1 @ r, g1]) x)) f 0 True readme =
     pre @ f (U ''## Progress Summary'' @ ws @ [10] @ U ''- Total: '', d @ U '' done / '' @ p @ U '' planned'')
       @ sub_loop summary_pattern (\<lambda>x. hd ((\<lambda>(g1, r). [g1 @ r, g1]) x)) f 0 False post"
proof -
  let ?S = "U ''## Progress Summary''"
  let ?g1 = "?S @ ws @ [10] @ U ''- Total: ''"
  let ?r = "d @ U '' done / '' @ p @ U '' planned''"
  let ?w = "\<lambda>x. hd ((\<lambda>(g1, r). [g1 @ r, g1]) x)"
  let ?x = "(?g1, ?r)"
  from assms(1) have e: "readme = pre @ ?g1 @ ?r @ post" and b: "bol_after True pre"
    and c: "list_all is_space ws" "d \<noteq> []" "list_all is_decimal d" "p \<noteq> []" "list_all is_decimal p"
      "post = [] \<or> hd post = 10"
    by (simp_all add: summary_at_def)
  have w: "?w ?x = ?g1 @ ?r" by simp
  obtain xs where m: "summary_pattern (bol_after True pre, ?g1 @ ?r @ post) = ?x # xs"
    using summary_pattern_first [OF b c] by auto
  have l: "bol_after b0 (U '' planned'') = False" for b0 by (simp add: U_def)
  have "sub_loop summary_pattern ?w f 0 True (pre @ ?w ?x @ post) =
      pre @ f ?x @ sub_loop summary_pattern ?w f 0 (bol_after True (pre @ ?w ?x)) post"
  proof (rule sub_loop_first [where xs = xs])
    show "summary_pattern (bol_after True pre, ?w ?x @ post) = ?x # xs" using m by simp
    show "?w ?x \<noteq> []" using c(2) by simp
  next
    fix pre' suf'
    assume e': "pre @ ?w ?x @ post = pre' @ suf'" and len: "length pre' < length pre"
    show "summary_pattern (bol_after True pre', suf') = []"
    proof (rule ccontr)
      assume "summary_pattern (bol_after True pre', suf') \<noteq> []"
      then have "bol_after True pre' \<and> summary_here suf'" by (rule summary_pattern_here)
      then have "length pre' \<in> set (summary_lines True readme)"
        unfolding summary_lines_iff using e e' by auto
      with assms(2) len show False by auto
    qed
  qed
  then show ?thesis unfolding w e by (simp add: l)
qed

lemma summary_sub_only:
  assumes "summary_at readme pre ws d p post" "summary_lines True readme = [length pre]"
  shows "sub_loop summary_pattern (\<lambda>x. hd ((\<lambda>(g1, r). [g1 @ r, g1]) x)) f 0 True readme =
     pre @ f (U ''## Progress Summary'' @ ws @ [10] @ U ''- Total: '', d @ U '' done / '' @ p @ U '' planned'')
       @ post"
proof -
  let ?g1 = "U ''## Progress Summary'' @ ws @ [10] @ U ''- Total: ''"
  let ?r = "d @ U '' done / '' @ p @ U '' planned''"
  let ?w = "\<lambda>x. hd ((\<lambda>(g1, r). [g1 @ r, g1]) x)"
  from assms(1) have e: "readme = (pre @ ?g1 @ ?r) @ post"
    by (simp add: summary_at_def)
  have gl: "?g1 @ ?r \<noteq> []" by (simp add: U_def)
  have "sub_loop summary_pattern ?w f 0 False post = post"
  proof (rule sub_loop_no_match)
    fix pre' suf'
    assume p: "post = pre' @ suf'"
    show "summary_pattern (bol_after False pre', suf') = []"
    proof (rule ccontr)
      assume "summary_pattern (bol_after False pre', suf') \<noteq> []"
      then have h: "bol_after False pre' \<and> summary_here suf'" by (rule summary_pattern_here)
      have "bol_after True ((pre @ ?g1 @ ?r) @ pre') = bol_after False pre'" by (simp add: U_def)
      with h have "length ((pre @ ?g1 @ ?r) @ pre') \<in> set (summary_lines True readme)"
        unfolding summary_lines_iff using e p by (metis append.assoc)
      with assms(2) gl show False by simp
    qed
  qed
  moreover have "\<forall>n\<in>set (summary_lines True readme). length pre \<le> n" using assms(2) by simp
  ultimately show ?thesis using summary_sub_first [OF assms(1), of f] by simp
qed

lemma sub_loop_line_break:
  assumes "post = [] \<or> hd post = 10"
  shows "sub_loop summary_pattern w f 0 False post = [] \<or> hd (sub_loop summary_pattern w f 0 False post) = 10"
proof (cases post)
  case Nil
  then show ?thesis by simp
next
  case (Cons c cs)
  with assms have "c = 10" by simp
  have "summary_pattern (False, c # cs) = []"
    by (rule ccontr) (use summary_pattern_here [of False "c # cs"] in auto)
  with Cons \<open>c = 10\<close> show ?thesis by simp
qed

lemma decimal_value_number_of: "decimal_value ds = number_of 10 ds"
  by (simp add: decimal_value_def number_of_def)

lemma str_of_nat_digits: "str_of_nat n \<noteq> [] \<and> list_all (\<lambda>c. 48 \<le> c \<and> c \<le> 57) (str_of_nat n)"
proof -
  have "digits_of (Suc f) k \<noteq> []" for f k by simp
  moreover have "list_all (\<lambda>c. 48 \<le> c \<and> c \<le> 57) (digits_of f k)" for f k
    using digits_of_ascii [of f k] by (auto simp: list_all_iff)
  ultimately show ?thesis by (simp add: str_of_nat_def del: digits_of.simps)
qed

lemma update_summary_counts_first:
  assumes "summary_at readme pre ws d p post" "\<forall>n\<in>set (summary_lines True readme). length pre \<le> n"
  shows "\<exists>post'. update_summary_counts readme =
     Inr (pre @ U ''## Progress Summary'' @ ws @ [10] @ U ''- Total: ''
            @ str_of_nat (done_lines (extract_progress_block readme)) @ U '' done / 150 planned'' @ post') \<and>
     (post' = [] \<or> hd post' = 10)"
proof -
  from assms(1) have p: "post = [] \<or> hd post = 10" by (simp add: summary_at_def)
  show ?thesis
    unfolding update_summary_counts_def Let_def re_sub_def findall_done summary_template sum.case
      summary_sub_first [OF assms]
    using sub_loop_line_break [OF p]
    by (simp add: expand_template_Cons expand_template_append expand_template_literal)
qed

lemma update_summary_counts_only:
  assumes "summary_at readme pre ws d p post" "summary_lines True readme = [length pre]"
  shows "update_summary_counts readme =
     Inr (pre @ U ''## Progress Summary'' @ ws @ [10] @ U ''- Total: ''
            @ str_of_nat (done_lines (extract_progress_block readme)) @ U '' done / 150 planned'' @ post)"
  unfolding update_summary_counts_def Let_def re_sub_def findall_done summary_template sum.case
    summary_sub_only [OF assms]
  by (simp add: expand_template_Cons expand_template_append expand_template_literal)

lemma summary_lines_False: "summary_lines False (c # cs) = map Suc (summary_lines (c = 10) cs)"
  by simp

lemma summary_lines_True_yes:
  "summary_here (c # cs) \<Longrightarrow> summary_lines True (c # cs) = 0 # map Suc (summary_lines (c = 10) cs)"
  by simp

lemma summary_lines_True_no:
  "\<not> summary_here (c # cs) \<Longrightarrow> summary_lines True (c # cs) = map Suc (summary_lines (c = 10) cs)"
  by simp

lemmas summary_lines_eval =
  summary_lines_False summary_lines_True_yes summary_lines_True_no summary_lines.simps(1)
  summary_here_def digits_then_def Let_def U_def is_space_def is_decimal_def decimal_ranges_def

section \<open>Calling twice\<close>

















section \<open>The claims\<close>

text \<open>
  C10. When no start marker is followed by an end marker in the document,
  \<open>extract_progress_block\<close> returns the synthesized default: the start marker, a line break,
  the one section \<open>## Arrays\<close> with the placeholder \<open>(none yet)\<close>, and the end marker.
  When the markers are there, it returns the text strictly between the first start marker
  and the first end marker after it, without the markers.
\<close>

theorem extract_progress_block_spec:
  "(\<not> (\<exists>pre mid post. readme = pre @ U ''<!-- PROGRESS:START -->'' @ mid @ U ''<!-- PROGRESS:END -->'' @ post)
      \<longrightarrow> extract_progress_block readme =
            U ''<!-- PROGRESS:START -->'' @ [10] @ U ''## Arrays'' @ [10] @ U ''(none yet)'' @ [10, 10]
              @ U ''<!-- PROGRESS:END -->'') \<and>
   (\<forall>pre mid post.
      readme = pre @ U ''<!-- PROGRESS:START -->'' @ mid @ U ''<!-- PROGRESS:END -->'' @ post \<and>
      \<not> sublist (U ''<!-- PROGRESS:START -->'') (pre @ butlast (U ''<!-- PROGRESS:START -->'')) \<and>
      \<not> sublist (U ''<!-- PROGRESS:END -->'') (mid @ butlast (U ''<!-- PROGRESS:END -->''))
      \<longrightarrow> extract_progress_block readme = mid)"
proof (intro conjI impI allI)
  assume "\<not> (\<exists>pre mid post. readme = pre @ U ''<!-- PROGRESS:START -->'' @ mid @ U ''<!-- PROGRESS:END -->'' @ post)"
  then have "search progress_pattern True readme = None"
    using extract_absent [of readme] by (simp add: PROGRESS_START_def PROGRESS_END_def)
  then show "extract_progress_block readme =
      U ''<!-- PROGRESS:START -->'' @ [10] @ U ''## Arrays'' @ [10] @ U ''(none yet)'' @ [10, 10]
        @ U ''<!-- PROGRESS:END -->''"
    by (simp add: extract_progress_block_def PROGRESS_START_def PROGRESS_END_def placeholder_def)
next
  fix pre mid post
  assume "readme = pre @ U ''<!-- PROGRESS:START -->'' @ mid @ U ''<!-- PROGRESS:END -->'' @ post \<and>
      \<not> sublist (U ''<!-- PROGRESS:START -->'') (pre @ butlast (U ''<!-- PROGRESS:START -->'')) \<and>
      \<not> sublist (U ''<!-- PROGRESS:END -->'') (mid @ butlast (U ''<!-- PROGRESS:END -->''))"
  then have "search progress_pattern True readme = Some (pre, PROGRESS_START, mid, PROGRESS_END)"
    using extract_present [of readme pre mid post] by (simp add: PROGRESS_START_def PROGRESS_END_def)
  then show "extract_progress_block readme = mid"
    by (simp add: extract_progress_block_def)
qed

text \<open>The two cases of C10 on a document without markers and on one with them.\<close>

theorem extract_progress_block_witness:
  "extract_progress_block (U ''# Notes'') =
     U ''<!-- PROGRESS:START -->'' @ [10] @ U ''## Arrays'' @ [10] @ U ''(none yet)'' @ [10, 10]
       @ U ''<!-- PROGRESS:END -->'' \<and>
   extract_progress_block (U ''ab'' @ U ''<!-- PROGRESS:START -->'' @ U ''## A'' @ U ''<!-- PROGRESS:END -->'' @ U ''cd'') = U ''## A''"
proof -
  have 1: "\<not> (\<exists>pre mid post. U ''# Notes'' = pre @ U ''<!-- PROGRESS:START -->'' @ mid @ U ''<!-- PROGRESS:END -->'' @ post)"
  proof
    assume "\<exists>pre mid post. U ''# Notes'' = pre @ U ''<!-- PROGRESS:START -->'' @ mid @ U ''<!-- PROGRESS:END -->'' @ post"
    then obtain pre mid post where "U ''# Notes'' = pre @ U ''<!-- PROGRESS:START -->'' @ mid @ U ''<!-- PROGRESS:END -->'' @ post"
      by blast
    then have "length (U ''# Notes'') = length (pre @ U ''<!-- PROGRESS:START -->'' @ mid @ U ''<!-- PROGRESS:END -->'' @ post)"
      by simp
    then show False by (simp add: U_def)
  qed
  have 2: "\<not> sublist (U ''<!-- PROGRESS:START -->'') (U ''ab'' @ butlast (U ''<!-- PROGRESS:START -->''))"
    by code_simp
  have 3: "\<not> sublist (U ''<!-- PROGRESS:END -->'') (U ''## A'' @ butlast (U ''<!-- PROGRESS:END -->''))"
    by code_simp
  from extract_progress_block_spec [of "U ''# Notes''"] 1
  have a: "extract_progress_block (U ''# Notes'') =
     U ''<!-- PROGRESS:START -->'' @ [10] @ U ''## Arrays'' @ [10] @ U ''(none yet)'' @ [10, 10]
       @ U ''<!-- PROGRESS:END -->''" by blast
  from extract_progress_block_spec [of "U ''ab'' @ U ''<!-- PROGRESS:START -->'' @ U ''## A'' @ U ''<!-- PROGRESS:END -->'' @ U ''cd''"] 2 3
  have b: "extract_progress_block (U ''ab'' @ U ''<!-- PROGRESS:START -->'' @ U ''## A'' @ U ''<!-- PROGRESS:END -->'' @ U ''cd'') = U ''## A''"
    by blast
  from a b show ?thesis by (rule conjI)
qed

text \<open>
  C5. \<open>upsert_category_block\<close> is to return the region unchanged exactly when it has a
  heading whose title is exactly the given one, and to append a new section otherwise. The
  code looks for a line that starts with \<open>## \<close> and the title, so that a longer title passes
  for the given one: asked for the category \<open>Arr\<close> in a region whose only section is
  \<open>## Arrays\<close>, it returns the region unchanged, and the region has no section \<open>## Arr\<close>.
\<close>

theorem upsert_category_block_prefix_title:
  "upsert_category_block (U ''## Arrays'' @ [10] @ U ''(none yet)'' @ [10, 10]) (U ''Arr'') =
     U ''## Arrays'' @ [10] @ U ''(none yet)'' @ [10, 10]"
proof -
  have "section_at (U ''## Arrays'' @ [10] @ U ''(none yet)'' @ [10, 10]) (U ''Arr'') [] []
        (U ''ays'' @ [10] @ U ''(none yet)'' @ [10, 10]) []"
    by (simp add: section_at_def U_def is_space_def)
  then show ?thesis by (rule upsert_present)
qed

text \<open>
  C4. \<open>add_problem_checkbox\<close> for a category is to change the body of the section of that
  category and nothing else. Asked for the category \<open>Arr\<close> in a region whose only section
  is \<open>## Arrays\<close>, it takes that section for the one of \<open>Arr\<close> and writes the entry there:
  the body of the section \<open>Arrays\<close> changes, from the placeholder to the new entry line.
\<close>

theorem add_problem_checkbox_other_category:
  "add_problem_checkbox (U ''## Arrays'' @ [10] @ U ''(none yet)'' @ [10, 10]) (U ''Arr'')
      (U ''Two Sum'') (U ''http://x'') (U ''arr/two_sum.py'') False =
     Inr (U ''## Arrays'' @ [10] @ U ''- [ ] [Two Sum](http://x) '' @ [8212] @ U '' `arr/two_sum.py`'' @ [10, 10])"
proof -
  have s: "section_at (U ''## Arrays'' @ [10] @ U ''(none yet)'' @ [10, 10]) (U ''Arr'') [] []
        ((U ''ays'' @ [10]) @ placeholder @ [10, 10]) []"
    by (simp add: section_at_def U_def is_space_def placeholder_def)
  have r: "replace_str ((U ''ays'' @ [10]) @ placeholder @ [10, 10]) placeholder new = (U ''ays'' @ [10]) @ new @ [10, 10]" for new
    by (rule replace_str_once) (simp_all add: placeholder_def U_def sublist_Cons_right)
  have c: "sublist placeholder ((U ''ays'' @ [10]) @ placeholder @ [10, 10])"
    by (rule sublist_appendI)
  show ?thesis
    unfolding add_problem_checkbox_section [OF s] r if_P [OF c]
    by (simp add: entry_line_def U_def)
qed

text \<open>
  C8. \<open>replace_progress_block\<close> is to put the new region text, as it is given, between the
  markers. The code hands the text to \<open>re.sub\<close> as a replacement template, and \<open>re.sub\<close>
  reads the backslash escapes of a template: the new text of two characters, a backslash
  (92) and the letter n (110), arrives in the document as one line break. For a document
  without markers the other branch of the function appends the text as it is given.
\<close>

theorem replace_progress_block_escape:
  "replace_progress_block (U ''<!-- PROGRESS:START --><!-- PROGRESS:END -->'') [92, 110] =
     Inr (U ''<!-- PROGRESS:START -->'' @ [10] @ U ''<!-- PROGRESS:END -->'')"
proof -
  have e: "U ''<!-- PROGRESS:START --><!-- PROGRESS:END -->'' = PROGRESS_START @ PROGRESS_END"
    by (simp add: PROGRESS_START_def PROGRESS_END_def U_def)
  have "parse_template 1 ([92, 110] @ PROGRESS_END) = add_item (TLit [10]) (parse_template 1 PROGRESS_END)"
    by (simp add: ascii_digit_def escape_of_def)
  then have p: "parse_template 1 (PROGRESS_START @ [92, 110] @ PROGRESS_END) =
      Inr (map (\<lambda>c. TLit [c]) PROGRESS_START @ [TLit [10]] @ map (\<lambda>c. TLit [c]) PROGRESS_END)"
    by (simp add: parse_template_literal [OF no_backslash_START]
        parse_template_literal_all [OF no_backslash_END] add_item_def)
  show ?thesis
    unfolding e
    by (simp add: replace_progress_block_def markers_found re_sub_def p [simplified] sub_markers
        expand_template_append expand_template_Cons expand_template_literal
        PROGRESS_START_def [symmetric] PROGRESS_END_def [symmetric])
qed

text \<open>
  C9. No operation of the editor is to raise an error. \<open>replace_progress_block\<close> hands the new
  region text to \<open>re.sub\<close> as a replacement template: on the new text of two characters, a
  backslash (92) and the digit 2 (50), which a template reads as a reference to the second
  group of a pattern that has one group, \<open>re.sub\<close> raises \<open>re.error\<close>.
\<close>

theorem replace_progress_block_raises:
  "replace_progress_block (U ''<!-- PROGRESS:START --><!-- PROGRESS:END -->'') [92, 50] = Inl TemplateError"
proof -
  have e: "U ''<!-- PROGRESS:START --><!-- PROGRESS:END -->'' = PROGRESS_START @ PROGRESS_END"
    by (simp add: PROGRESS_START_def PROGRESS_END_def U_def)
  have "parse_template 1 ([92, 50] @ PROGRESS_END) = Inl TemplateError"
    by (simp add: PROGRESS_END_def U_def ascii_digit_def)
  then have "parse_template 1 (PROGRESS_START @ [92, 50] @ PROGRESS_END) = Inl TemplateError"
    by (simp add: parse_template_literal [OF no_backslash_START])
  then show ?thesis
    unfolding e by (simp add: replace_progress_block_def markers_found re_sub_def)
qed

text \<open>
  C7. When the body of the section has an entry for the name, \<open>add_problem_checkbox\<close> with
  \<open>done\<close> true is to rewrite the flag of that entry from \<open>[ ]\<close> to \<open>[x]\<close>. The code rewrites
  the lines that match a pattern in which the link is \<open>[^)]+\<close>, so an entry whose link
  holds a closing parenthesis is never marked done. The function writes such an entry
  itself: called with the link \<open>u(1)\<close> and \<open>done\<close> false on a fresh section, it writes the
  entry (first equation); called again with \<open>done\<close> true, it returns the region with the
  entry still not done (second equation).
\<close>

theorem add_problem_checkbox_no_upgrade:
  "add_problem_checkbox (U ''## A'' @ [10] @ U ''(none yet)'' @ [10]) (U ''A'')
      (U ''N'') (U ''u(1)'') (U ''p'') False =
     Inr (U ''## A'' @ [10] @ U ''- [ ] [N](u(1)) '' @ [8212] @ U '' `p`'' @ [10]) \<and>
   add_problem_checkbox (U ''## A'' @ [10] @ U ''- [ ] [N](u(1)) '' @ [8212] @ U '' `p`'' @ [10]) (U ''A'')
      (U ''N'') (U ''u(1)'') (U ''p'') True =
     Inr (U ''## A'' @ [10] @ U ''- [ ] [N](u(1)) '' @ [8212] @ U '' `p`'' @ [10])"
proof
  have s: "section_at (U ''## A'' @ [10] @ U ''(none yet)'' @ [10]) (U ''A'') [] [10] (placeholder @ [10]) []"
    by (simp add: section_at_def U_def is_space_def placeholder_def)
  have r: "replace_str (placeholder @ [10]) placeholder new = new @ [10]" for new
    by (rule replace_placeholder_first) (simp add: placeholder_def U_def sublist_Cons_right)
  have c: "sublist placeholder (placeholder @ [10])"
    by simp
  show "add_problem_checkbox (U ''## A'' @ [10] @ U ''(none yet)'' @ [10]) (U ''A'')
      (U ''N'') (U ''u(1)'') (U ''p'') False =
     Inr (U ''## A'' @ [10] @ U ''- [ ] [N](u(1)) '' @ [8212] @ U '' `p`'' @ [10])"
    unfolding add_problem_checkbox_section [OF s] r if_P [OF c]
    by (simp add: entry_line_def U_def)
next
  let ?body = "U ''- [ ] [N](u(1)) '' @ [8212] @ U '' `p`'' @ [10]"
  have s: "section_at (U ''## A'' @ [10] @ ?body) (U ''A'') [] [10] ?body []"
    by (simp add: section_at_def U_def is_space_def)
  have p: "\<not> sublist placeholder ?body"
    by (simp add: placeholder_def U_def sublist_Cons_right)
  have n: "sublist (U ''['' @ U ''N'' @ U '']('') ?body"
    by (simp add: U_def sublist_Cons_right)
  have l: "sub_loop (entry_pattern (U ''N'')) w f 0 True ?body = ?body" for w f
    by (simp add: U_def entry_pattern_Nil)
  show "add_problem_checkbox (U ''## A'' @ [10] @ ?body) (U ''A'') (U ''N'') (U ''u(1)'') (U ''p'') True =
     Inr (U ''## A'' @ [10] @ ?body)"
    unfolding add_problem_checkbox_section [OF s] if_not_P [OF p] if_P [OF n] l
    by (simp add: U_def)
qed




text \<open>
  C1. A document has the markers and a summary line: the heading \<open>## Progress Summary\<close> at
  the start of a line, white space and a line break, and the line
  \<open>- Total: d done / p planned\<close>. Take the first summary line of the document. After
  \<open>update_summary_counts\<close> the document starts as before, up to \<open>- Total: \<close> of that summary
  line; then come digits \<open>ds\<close>, then \<open> done / 150 planned\<close> and the end of the line. The
  number that \<open>ds\<close> denotes is the number of lines that begin with \<open>- [x]\<close> in the text
  strictly between the first start marker and the first end marker after it.
\<close>

theorem summary_count_consistent:
  assumes "summary_at readme pre ws d p post"
    "\<forall>n\<in>set (summary_lines True readme). length pre \<le> n"
    "readme = a @ PROGRESS_START @ mid @ PROGRESS_END @ c"
    "\<not> sublist PROGRESS_START (a @ butlast PROGRESS_START)"
    "\<not> sublist PROGRESS_END (mid @ butlast PROGRESS_END)"
  shows "\<exists>ds post'.
     update_summary_counts readme =
       Inr (pre @ U ''## Progress Summary'' @ ws @ [10] @ U ''- Total: '' @ ds
              @ U '' done / 150 planned'' @ post') \<and>
     (post' = [] \<or> hd post' = 10) \<and>
     ds \<noteq> [] \<and> list_all (\<lambda>c. 48 \<le> c \<and> c \<le> 57) ds \<and> decimal_value ds = done_lines mid"
proof -
  have m: "extract_progress_block readme = mid"
    using extract_present [OF assms(3-5)] by (simp add: extract_progress_block_def)
  from update_summary_counts_first [OF assms(1,2)] obtain post' where
    "update_summary_counts readme =
       Inr (pre @ U ''## Progress Summary'' @ ws @ [10] @ U ''- Total: '' @ str_of_nat (done_lines mid)
              @ U '' done / 150 planned'' @ post')" "post' = [] \<or> hd post' = 10"
    unfolding m by blast
  moreover have "decimal_value (str_of_nat (done_lines mid)) = done_lines mid"
    by (simp add: decimal_value_number_of str_of_nat_value)
  ultimately show ?thesis using str_of_nat_digits [of "done_lines mid"] by blast
qed

text \<open>
  C1 on a document with a heading \<open>## Progress Summary (old)\<close>, which starts no summary line,
  then the summary line, and a region of three entries, two of them done.
\<close>

theorem summary_count_consistent_witness:
  "\<exists>ds post'.
     update_summary_counts (U ''## Progress Summary (old)'' @ [10]
        @ U ''## Progress Summary'' @ [10] @ U ''- Total: 0 done / 150 planned'' @ [10]
        @ U ''<!-- PROGRESS:START -->'' @ [10] @ U ''- [x] a'' @ [10] @ U ''- [ ] b'' @ [10] @ U ''- [x] c'' @ [10]
        @ U ''<!-- PROGRESS:END -->'') =
       Inr (U ''## Progress Summary (old)'' @ [10]
        @ U ''## Progress Summary'' @ [10] @ U ''- Total: '' @ ds @ U '' done / 150 planned'' @ post') \<and>
     (post' = [] \<or> hd post' = 10) \<and>
     ds \<noteq> [] \<and> list_all (\<lambda>c. 48 \<le> c \<and> c \<le> 57) ds \<and> decimal_value ds = 2"
proof -
  let ?pre = "U ''## Progress Summary (old)'' @ [10]"
  let ?a = "?pre @ U ''## Progress Summary'' @ [10] @ U ''- Total: 0 done / 150 planned'' @ [10]"
  let ?mid = "[10] @ U ''- [x] a'' @ [10] @ U ''- [ ] b'' @ [10] @ U ''- [x] c'' @ [10]"
  let ?readme = "?a @ PROGRESS_START @ ?mid @ PROGRESS_END @ []"
  have s: "summary_at ?readme ?pre [] (U ''0'') (U ''150'') ([10] @ PROGRESS_START @ ?mid @ PROGRESS_END)"
    by (simp add: summary_at_def U_def is_decimal_def decimal_ranges_def PROGRESS_START_def PROGRESS_END_def)
  have "summary_lines True ?readme = [26]"
    by (simp add: summary_lines_eval PROGRESS_START_def PROGRESS_END_def del: summary_lines.simps(2))
  then have f: "\<forall>n\<in>set (summary_lines True ?readme). length ?pre \<le> n"
    by (simp add: U_def)
  have 1: "\<not> sublist PROGRESS_START (?a @ butlast PROGRESS_START)"
    by (simp add: PROGRESS_START_def U_def sublist_Cons_right)
  have 2: "\<not> sublist PROGRESS_END (?mid @ butlast PROGRESS_END)"
    by (simp add: PROGRESS_END_def U_def sublist_Cons_right)
  have 3: "done_lines ?mid = 2"
    by (simp add: done_lines_def U_def lines_of_Cons del: lines_of.simps(2))
  from summary_count_consistent [OF s f refl 1 2, unfolded 3] show ?thesis
    by (simp add: PROGRESS_START_def PROGRESS_END_def)
qed

text \<open>
  C6. \<open>update_summary_counts\<close> is said to rewrite the count of done entries only and to leave
  the planned value as it is. The replacement of the code ends in the fixed text
  \<open>done / 150 planned\<close>: a summary line with 100 planned comes back with 150 planned.
\<close>

theorem update_summary_counts_planned:
  "update_summary_counts (U ''## Progress Summary'' @ [10] @ U ''- Total: 0 done / 100 planned'') =
     Inr (U ''## Progress Summary'' @ [10] @ U ''- Total: 0 done / 150 planned'')"
proof -
  let ?readme = "U ''## Progress Summary'' @ [10] @ U ''- Total: 0 done / 100 planned''"
  have s: "summary_at ?readme [] [] (U ''0'') (U ''100'') []"
    by (simp add: summary_at_def U_def is_decimal_def decimal_ranges_def)
  have f: "summary_lines True ?readme = [length ([] :: ustr)]"
    by (simp add: summary_lines_eval del: summary_lines.simps(2))
  have nm: "60 \<notin> set ?readme" by (simp add: U_def)
  have "done_lines (extract_progress_block ?readme) = 0"
    unfolding extract_no_marker [OF nm] by (rule done_lines_default)
  then show ?thesis
    unfolding update_summary_counts_only [OF s f] by (simp add: str_of_nat_def U_def)
qed

text \<open>
  C6, amended. In a document with exactly one summary line (the heading
  \<open>## Progress Summary\<close> at the start of a line, white space and a line break, and the line
  \<open>- Total: d done / p planned\<close>), \<open>update_summary_counts\<close> replaces \<open>d\<close> by digits \<open>ds\<close>
  that denote the number of done lines of the progress region, and \<open>p\<close> by the constant 150,
  and changes nothing else: the text before the summary line, the heading, the white space
  after it, the words of the line and the text after the line are those of the document.
\<close>

theorem update_summary_counts_frame:
  assumes "summary_at readme pre ws d p post" "summary_lines True readme = [length pre]"
  shows "\<exists>ds.
     update_summary_counts readme =
       Inr (pre @ U ''## Progress Summary'' @ ws @ [10] @ U ''- Total: '' @ ds
              @ U '' done / 150 planned'' @ post) \<and>
     ds \<noteq> [] \<and> list_all (\<lambda>c. 48 \<le> c \<and> c \<le> 57) ds \<and>
     decimal_value ds = done_lines (extract_progress_block readme)"
proof -
  have "decimal_value (str_of_nat (done_lines (extract_progress_block readme))) =
      done_lines (extract_progress_block readme)"
    by (simp add: decimal_value_number_of str_of_nat_value)
  with update_summary_counts_only [OF assms]
    str_of_nat_digits [of "done_lines (extract_progress_block readme)"]
  show ?thesis by blast
qed

text \<open>
  The amended C6 on a document with a heading \<open>## Progress Summary (archive 2023)\<close>, which
  starts no summary line, the summary line with 7 done and 99 planned, and text after it.
  The document has no markers: the region is the default one, without a done line.
\<close>

theorem update_summary_counts_frame_witness:
  "\<exists>ds.
     update_summary_counts (U ''## Progress Summary (archive 2023)'' @ [10] @ U ''## Progress Summary'' @ [10]
        @ U ''- Total: 7 done / 99 planned'' @ [10] @ U ''x'') =
       Inr (U ''## Progress Summary (archive 2023)'' @ [10] @ U ''## Progress Summary'' @ [10]
        @ U ''- Total: '' @ ds @ U '' done / 150 planned'' @ [10] @ U ''x'') \<and>
     ds \<noteq> [] \<and> list_all (\<lambda>c. 48 \<le> c \<and> c \<le> 57) ds \<and> decimal_value ds = 0"
proof -
  let ?pre = "U ''## Progress Summary (archive 2023)'' @ [10]"
  let ?readme = "?pre @ U ''## Progress Summary'' @ [10] @ U ''- Total: 7 done / 99 planned'' @ [10] @ U ''x''"
  have s: "summary_at ?readme ?pre [] (U ''7'') (U ''99'') ([10] @ U ''x'')"
    by (simp add: summary_at_def U_def is_decimal_def decimal_ranges_def)
  have "summary_lines True ?readme = [35]"
    by (simp add: summary_lines_eval del: summary_lines.simps(2))
  then have f: "summary_lines True ?readme = [length ?pre]"
    by (simp add: U_def)
  have nm: "60 \<notin> set ?readme" by (simp add: U_def)
  have z: "done_lines (extract_progress_block ?readme) = 0"
    unfolding extract_no_marker [OF nm] by (rule done_lines_default)
  from update_summary_counts_frame [OF s f, unfolded z] show ?thesis
    by simp
qed




end
